theory Spec2Isabelle
  imports Main "HOL-Library.List_Lexorder"
begin

section \<open>A collapsible folder tree: the model of \<open>src/lib/folder_tree.js\<close>\<close>

text \<open>
  The widget keeps one tree of Node objects (built once by \<open>d3.hierarchy\<close>), mutates
  their properties in place, and redraws after every click. The model follows that:

  \<^item> the input document is a \<open>json\<close> value; it never changes;
  \<^item> a Node object is addressed by its \<open>path\<close> from the root (the list of child
    indexes), and the mutable properties of all Node objects live in a \<open>store\<close>
    (a map from addresses to \<open>node\<close> records), updated in place with \<open>s(p := n)\<close>.

  \<open>d3.hierarchy\<close> creates exactly one Node per item of the document and one array of
  child Nodes per item with a non-empty \<open>children\<close> list. The code never builds or
  changes such an array: it only moves the reference between the properties
  \<open>children\<close> and \<open>_children\<close> of the same Node. So the value of either property is
  one of: absent (not an own property), \<open>undefined\<close>, \<open>null\<close>, or the Node's own
  array of child Nodes, whose \<open>i\<close>-th entry is the Node at \<open>p @ [i]\<close>.
\<close>

subsection \<open>Input data and Node objects\<close>

type_synonym path = "nat list"

datatype json =
  Json (json_name: string) (json_fields: "(string \<times> string) list")
       (json_children: "json list option")

fun kids :: "json \<Rightarrow> json list" where
  "kids (Json nm fl None) = []"
| "kids (Json nm fl (Some ks)) = ks"

fun node_at :: "json \<Rightarrow> path \<Rightarrow> json option" where
  "node_at t [] = Some t"
| "node_at t (i # p) = (if i < length (kids t) then node_at (kids t ! i) p else None)"

datatype slot = Absent | Undefined | Null | Array

text \<open>
  The properties of a Node: \<open>data\<close>, \<open>depth\<close> and \<open>children\<close> are set by
  \<open>d3.hierarchy\<close>; \<open>children'\<close> is the source's \<open>_children\<close>, \<open>node_id\<close> its \<open>id\<close>;
  \<open>x\<close>, \<open>y\<close>, \<open>row\<close>, \<open>x0\<close>, \<open>y0\<close> are \<open>None\<close> while the property is undefined.
\<close>

record node =
  data :: json
  depth :: nat
  children :: slot
  children' :: slot
  node_id :: "nat option"
  x :: "int option"
  y :: "int option"
  row :: "int option"
  x0 :: "int option"
  y0 :: "int option"

type_synonym store = "path \<Rightarrow> node"

definition no_node :: node where
  "no_node = \<lparr>data = Json [] [] None, depth = 0, children = Absent, children' = Absent,
     node_id = None, x = None, y = None, row = None, x0 = None, y0 = None\<rparr>"

text \<open>
  Modelled from the spec: \<open>d3.hierarchy\<close>, the hierarchy-construction routine (an
  external collaborator). It makes one Node per item, with \<open>depth\<close> the distance from
  the root, and gives a Node the property \<open>children\<close> only when the item's
  \<open>children\<close> list is non-empty. At an address that is no Node the store holds
  \<open>no_node\<close>, which nothing reads.
\<close>

definition hierarchy :: "json \<Rightarrow> store" where
  "hierarchy t = (\<lambda>p. case node_at t p of
       None \<Rightarrow> no_node
     | Some d \<Rightarrow> \<lparr>data = d, depth = length p,
         children = (if kids d = [] then Absent else Array), children' = Absent,
         node_id = None, x = None, y = None, row = None, x0 = None, y0 = None\<rparr>)"

subsection \<open>Traversals of the hierarchy\<close>

text \<open>
  Modelled from the spec: \<open>node.eachBefore(callback)\<close>, the pre-order traversal of the
  external hierarchy model. It calls the callback on a Node, then reads the Node's
  \<open>children\<close> and, when that is an array, goes through the child Nodes in order (a
  Node of an item with no \<open>children\<close> list has no array). \<open>_children\<close> is never read. The callback may change the store and a value of its
  own (the source's callback increments the variable \<open>row\<close>).
\<close>

fun eachBefore :: "(path \<Rightarrow> store \<times> 'a \<Rightarrow> store \<times> 'a) \<Rightarrow> json \<Rightarrow> path \<Rightarrow> store \<times> 'a \<Rightarrow> store \<times> 'a"
and eachBefore_list :: "(path \<Rightarrow> store \<times> 'a \<Rightarrow> store \<times> 'a) \<Rightarrow> json list \<Rightarrow> path \<Rightarrow> nat \<Rightarrow> store \<times> 'a \<Rightarrow> store \<times> 'a"
where
  "eachBefore cb (Json nm fl None) p st = cb p st"
| "eachBefore cb (Json nm fl (Some ks)) p st =
     (let st' = cb p st in
      if children (fst st' p) = Array then eachBefore_list cb ks p 0 st' else st')"
| "eachBefore_list cb [] p i st = st"
| "eachBefore_list cb (k # ks) p i st =
     eachBefore_list cb ks p (Suc i) (eachBefore cb k (p @ [i]) st)"

text \<open>The Nodes that \<open>eachBefore\<close> calls its callback on, in order, in a store that the
  callback leaves as it is.\<close>

fun preorder :: "json \<Rightarrow> path \<Rightarrow> store \<Rightarrow> path list"
and preorder_list :: "json list \<Rightarrow> path \<Rightarrow> nat \<Rightarrow> store \<Rightarrow> path list"
where
  "preorder (Json nm fl None) p s = [p]"
| "preorder (Json nm fl (Some ks)) p s =
     p # (if children (s p) = Array then preorder_list ks p 0 s else [])"
| "preorder_list [] p i s = []"
| "preorder_list (k # ks) p i s = preorder k (p @ [i]) s @ preorder_list ks p (Suc i) s"

text \<open>
  A Node is visible when it exists and each of its proper ancestors is Expanded (has the
  array of its child Nodes under \<open>children\<close>).
\<close>

definition visible :: "json \<Rightarrow> store \<Rightarrow> path \<Rightarrow> bool" where
  "visible t s p =
     (node_at t p \<noteq> None \<and> list_all (\<lambda>k. children (s (take k p)) = Array) [0..<length p])"

text \<open>The same walk, from the Node at \<open>p\<close> down along \<open>q\<close>: every Node passed on the
  way, the last one apart, is Expanded.\<close>

fun open_below :: "store \<Rightarrow> path \<Rightarrow> path \<Rightarrow> bool" where
  "open_below s p [] = True"
| "open_below s p (i # q) = (children (s p) = Array \<and> open_below s (p @ [i]) q)"


text \<open>
  Modelled from the spec: \<open>node.each(callback)\<close> and \<open>node.descendants()\<close> of the
  external hierarchy model (breadth-first: the Nodes of one level, then the Nodes in the
  \<open>children\<close> arrays of that level, until a level is empty), and \<open>node.links()\<close>
  (one \<open>{source: parent, target: node}\<close> for every Node of the traversal but the root).
\<close>

definition child_nodes :: "json \<Rightarrow> store \<Rightarrow> path \<Rightarrow> path list" where
  "child_nodes t s p =
     (if children (s p) = Array
      then (case node_at t p of None \<Rightarrow> [] | Some d \<Rightarrow> map (\<lambda>i. p @ [i]) [0..<length (kids d)])
      else [])"

fun weight :: "json \<Rightarrow> nat" where
  "weight (Json nm fl ch) = Suc (case ch of None \<Rightarrow> 0 | Some ks \<Rightarrow> sum_list (map weight ks))"

definition weight_at :: "json \<Rightarrow> path \<Rightarrow> nat" where
  "weight_at t p = (case node_at t p of None \<Rightarrow> 1 | Some d \<Rightarrow> weight d)"

function each_loop :: "json \<Rightarrow> store \<Rightarrow> path list \<Rightarrow> path list" where
  "each_loop t s next =
     (if next = [] then [] else next @ each_loop t s (concat (map (child_nodes t s) next)))"
  by pat_completeness auto
termination
proof (relation "measure (\<lambda>(t, s, next). sum_list (map (weight_at t) next))")
  show "wf (measure (\<lambda>(t, s, next). sum_list (map (weight_at t) next)))"
    by simp
next
  fix t :: json and s :: store and frontier :: "path list"
  assume ne: "frontier \<noteq> []"
  have at_snoc: "node_at u (q @ [i]) = (case node_at u q of None \<Rightarrow> None
      | Some d \<Rightarrow> if i < length (kids d) then Some (kids d ! i) else None)" for u q i
    by (induction q arbitrary: u) auto
  have w_pos: "0 < weight d" for d
    by (cases d) simp
  have w_kids: "sum_list (map weight (kids d)) < weight d" for d
    by (cases d) (auto split: option.splits)
  have nth_map: "map (\<lambda>i. f (ks ! i)) [0..<length ks] = map f ks" for f :: "json \<Rightarrow> nat" and ks
    by (rule nth_equalityI) simp_all
  have one: "sum_list (map (weight_at t) (child_nodes t s p)) < weight_at t p" for p
  proof (cases "children (s p) = Array")
    case False
    then show ?thesis
      using w_pos by (simp add: child_nodes_def weight_at_def split: option.splits)
  next
    case True
    show ?thesis
    proof (cases "node_at t p")
      case None
      then show ?thesis using True by (simp add: child_nodes_def weight_at_def)
    next
      case (Some d)
      have "map (weight_at t) (map (\<lambda>i. p @ [i]) [0..<length (kids d)])
          = map (\<lambda>i. weight (kids d ! i)) [0..<length (kids d)]"
        using Some by (simp add: weight_at_def at_snoc)
      also have "\<dots> = map weight (kids d)"
        by (rule nth_map)
      finally show ?thesis
        using Some True w_kids [of d] by (simp add: child_nodes_def weight_at_def)
    qed
  qed
  have all: "ps \<noteq> [] \<Longrightarrow>
      sum_list (map (weight_at t) (concat (map (child_nodes t s) ps)))
        < sum_list (map (weight_at t) ps)" for ps
  proof (induction ps)
    case Nil
    then show ?case by simp
  next
    case (Cons p ps)
    show ?case
    proof (cases "ps = []")
      case True
      then show ?thesis using one [of p] by simp
    next
      case False
      then show ?thesis using Cons.IH one [of p] by simp
    qed
  qed
  show "((t, s, concat (map (child_nodes t s) frontier)), (t, s, frontier))
      \<in> measure (\<lambda>(t, s, next). sum_list (map (weight_at t) next))"
    using all [OF ne] by simp
qed

declare each_loop.simps [simp del]

definition descendants :: "json \<Rightarrow> store \<Rightarrow> path list" where
  "descendants t s = each_loop t s [[]]"

definition links :: "json \<Rightarrow> store \<Rightarrow> (path \<times> path) list" where
  "links t s = map (\<lambda>p. (butlast p, p)) (filter (\<lambda>p. p \<noteq> []) (descendants t s))"


subsection \<open>The widget and what it draws\<close>

text \<open>
  The argument \<open>tooltip_key\<close> of the constructor can be any JavaScript value. The
  constructor keeps it in \<open>tooltip_key_str\<close> only when it is a string (a primitive or a
  \<open>String\<close> object); \<open>None\<close> is the source's \<open>null\<close>.
\<close>

datatype js_value =
  JS_null | JS_undefined | JS_boolean bool | JS_number int
| JS_string string | JS_String_object string | JS_object

fun is_string :: "js_value \<Rightarrow> bool" where
  "is_string (JS_string k) = True"
| "is_string (JS_String_object k) = True"
| "is_string v = False"

fun string_of :: "js_value \<Rightarrow> string" where
  "string_of (JS_string k) = k"
| "string_of (JS_String_object k) = k"
| "string_of v = []"

record widget =
  min_height :: int
  tooltip_key_str :: "string option"

definition FolderTree :: "int \<Rightarrow> js_value \<Rightarrow> widget" where
  "FolderTree mh tooltip_key =
     \<lparr>min_height = mh,
      tooltip_key_str =
        (if tooltip_key \<noteq> JS_null
         then (if is_string tooltip_key then Some (string_of tooltip_key) else None)
         else None)\<rparr>"

definition margin_top :: int where "margin_top = 40"
definition row_height :: int where "row_height = 27"
definition indentation :: int where "indentation = 22"
definition icon_width :: int where "icon_width = 14"
definition source_vertical_offset :: int where "source_vertical_offset = - 7"
definition target_vertical_offset :: int where "target_vertical_offset = - 16"

text \<open>
  The three glyphs of \<open>folder_icon\<close> are the characters \<open>e118\<close> (open folder), \<open>e117\<close>
  (closed folder) and \<open>e022\<close> (file) of the icon font; the three fills of
  \<open>glyphicon_color\<close> are named as in the source.
\<close>

datatype glyph = Open_folder | Closed_folder | File_glyph

datatype colour = Slate_gray | Eerie_black | Onyx

datatype listener = Mouseover | Mousemove string | Mouseout

text \<open>
  A drawn row (a \<open>g.node\<close> element with its glyph and its file name). \<open>datum\<close> is the
  Node bound to it. A transition started on the element is kept as its target: when the
  animation ends the element has the target's transform and opacity, or is removed.
\<close>

record transition =
  to_transform :: "int option \<times> int option"
  to_opacity :: nat
  then_remove :: bool

record element =
  datum :: path
  transform :: "int option \<times> int option"
  opacity :: nat
  fill :: colour
  glyph_text :: glyph
  on_click :: bool
  dx :: int
  label :: string
  listeners :: "listener list"
  transition :: "transition option"

text \<open>
  A drawn connector (a \<open>path.link\<close> element). Its \<open>d\<close> attribute is
  \<open>M mx,my V v\<close> followed by a horizontal segment, absolute (\<open>H\<close>) or relative (\<open>h\<close>); a
  number computed from an undefined \<open>row\<close> is \<open>None\<close>.
\<close>

datatype horizontal = H_abs int | H_rel int

type_synonym geometry = "int option \<times> int option \<times> int option \<times> horizontal"

record link_element =
  link_datum :: "path \<times> path"
  d_attr :: geometry
  link_transition :: "(geometry \<times> bool) option"

record state = widget +
  root :: json
  heap :: store
  last_id :: nat
  svg_height :: "int option"
  nodes_dom :: "element list"
  links_dom :: "link_element list"

definition folder_icon :: "node \<Rightarrow> glyph" where
  "folder_icon d =
     (if children d \<noteq> Absent then Open_folder
      else if children' d \<noteq> Absent then Closed_folder else File_glyph)"

definition glyphicon_color :: "node \<Rightarrow> colour" where
  "glyphicon_color d =
     (if children' d \<noteq> Absent then Slate_gray
      else if children d \<noteq> Absent then Eerie_black else Onyx)"

subsection \<open>\<open>update\<close>: layout and reconciliation\<close>

text \<open>The callback of the layout pass; \<open>r\<close> is the source's variable \<open>row\<close>.\<close>

definition place :: "node \<Rightarrow> int \<Rightarrow> node" where
  "place n r = n\<lparr>x := Some (int (depth n) * indentation), y := Some (r * row_height),
                 row := Some r\<rparr>"

definition layout_cb :: "path \<Rightarrow> store \<times> int \<Rightarrow> store \<times> int" where
  "layout_cb n = (\<lambda>(s, r). (s(n := place (s n) (r + 1)), r + 1))"

definition layout :: "json \<Rightarrow> store \<Rightarrow> store" where
  "layout t s = fst (eachBefore layout_cb t [] (s, - 1))"

text \<open>The position of \<open>p\<close> in the pre-order list of the visible Nodes: the number of
  Nodes the traversal visits before it reaches \<open>p\<close>.\<close>

definition rank :: "json \<Rightarrow> store \<Rightarrow> path \<Rightarrow> int" where
  "rank t s p = int (length (takeWhile (\<lambda>q. q \<noteq> p) (preorder t [] s)))"

text \<open>The key function of the node join, \<open>d.id || (d.id = ++id)\<close>; \<open>c\<close> is the source's
  variable \<open>id\<close>. An id that is undefined or 0 is falsy.\<close>

definition key_fn :: "path \<Rightarrow> store \<times> nat \<Rightarrow> store \<times> nat" where
  "key_fn d = (\<lambda>(s, c).
     if node_id (s d) = None \<or> node_id (s d) = Some 0
     then (s(d := (s d)\<lparr>node_id := Some (Suc c)\<rparr>), Suc c)
     else (s, c))"

text \<open>
  The side effect of the filter callback on an entering glyph: a Node whose data
  has an empty \<open>children\<close> list and that has neither \<open>children\<close> nor \<open>_children\<close> gets
  \<open>children = null\<close>. The callback's result is \<open>has_slot\<close>: the glyphs it keeps get the
  click handler.
\<close>

definition normalize_empty :: "path \<Rightarrow> store \<Rightarrow> store" where
  "normalize_empty d s =
     (if json_children (data (s d)) = Some []
      then (if children (s d) = Absent \<and> children' (s d) = Absent
            then s(d := (s d)\<lparr>children := Null\<rparr>) else s)
      else s)"

definition has_slot :: "node \<Rightarrow> bool" where
  "has_slot d = (children d \<noteq> Absent \<or> children' d \<noteq> Absent)"

definition hover_listeners :: "string option \<Rightarrow> listener list" where
  "hover_listeners key =
     (case key of None \<Rightarrow> [] | Some k \<Rightarrow> [Mouseover, Mousemove k, Mouseout])"

text \<open>
  Modelled from the spec: the keyed data join \<open>selection.data(data, key)\<close> of the
  drawing substrate, by identity. It calls the key function on the datum of every
  drawn element, then on every new datum. Entering: the data whose key no drawn
  element has. Updating: the drawn elements whose key a datum has (the element is bound
  to that datum). Exiting: the drawn elements whose key no datum has.
\<close>

definition bind_keys :: "path list \<Rightarrow> store \<times> nat \<Rightarrow> store \<times> nat" where
  "bind_keys ds st = foldl (\<lambda>a d. key_fn d a) st ds"

definition entering :: "store \<Rightarrow> element list \<Rightarrow> path list \<Rightarrow> path list" where
  "entering s els ds =
     filter (\<lambda>d. node_id (s d) \<notin> set (map (\<lambda>e. node_id (s (datum e))) els)) ds"

definition matching :: "store \<Rightarrow> path list \<Rightarrow> element \<Rightarrow> path option" where
  "matching s ds e = find (\<lambda>d. node_id (s d) = node_id (s (datum e))) ds"

text \<open>
  An element made for an entering Node \<open>d\<close>, as it is when \<open>update\<close> returns: placed at
  the previous position of the pivot \<open>source\<close> with opacity 0, on its way to its own
  position. The fill is computed before the filter callback runs (\<open>s\<close> is the store
  then), the click handler, the glyph and the text offset after it (\<open>s'\<close>).
\<close>

definition enter_element :: "string option \<Rightarrow> path \<Rightarrow> store \<Rightarrow> store \<Rightarrow> path \<Rightarrow> element" where
  "enter_element key source s s' d =
     \<lparr>datum = d,
      transform = (x0 (s source), y0 (s source)),
      opacity = 0,
      fill = glyphicon_color (s d),
      glyph_text = folder_icon (s' d),
      on_click = has_slot (s' d),
      dx = (if children (s' d) \<noteq> Absent then 22 else 20),
      label = json_name (data (s' d)),
      listeners = hover_listeners key,
      transition = Some \<lparr>to_transform = (x (s' d), y (s' d)), to_opacity = 1,
                          then_remove = False\<rparr>\<rparr>"

text \<open>A drawn element after the join: updating (bound to its datum again, on its way
  to the datum's position) or exiting (on its way to the pivot's position, then removed).\<close>

definition rejoin_element :: "path \<Rightarrow> store \<Rightarrow> path list \<Rightarrow> element \<Rightarrow> element" where
  "rejoin_element source s ds e =
     (case matching s ds e of
        Some d \<Rightarrow> e\<lparr>datum := d,
            transition := Some \<lparr>to_transform = (x (s d), y (s d)), to_opacity = 1,
                                then_remove = False\<rparr>\<rparr>
      | None \<Rightarrow> e\<lparr>transition := Some \<lparr>to_transform = (x (s source), y (s source)),
                                to_opacity = 0, then_remove = True\<rparr>\<rparr>)"

definition link_at_pivot :: "node \<Rightarrow> horizontal \<Rightarrow> geometry" where
  "link_at_pivot source h =
     (Some (int (depth source) * indentation + icon_width div 2),
      map_option (\<lambda>r. r * row_height + source_vertical_offset) (row source),
      map_option (\<lambda>r. r * row_height + source_vertical_offset) (row source),
      h)"

definition link_path :: "store \<Rightarrow> path \<times> path \<Rightarrow> geometry" where
  "link_path s l =
     (Some (int (depth (s (fst l))) * indentation + icon_width div 2),
      map_option (\<lambda>r. r * row_height + source_vertical_offset) (row (s (fst l))),
      map_option (\<lambda>r. r * row_height + target_vertical_offset) (row (s (snd l))),
      H_rel (indentation - icon_width div 2 - 2))"

text \<open>
  Modelled from the spec: the enter/update/exit join of the drawing substrate, as
  \<open>selection.data(data)\<close> computes it when it is called with no key function, which
  is how the source calls it for the connectors (\<open>.data(root.links())\<close>). D3 documents
  that the join is then by index: the \<open>i\<close>-th datum is bound to the \<open>i\<close>-th drawn
  element; the data beyond the drawn elements enter; the drawn elements beyond the data
  exit. The source inserts the entering connectors before the first row, so after
  the drawn ones, in the order of the data.
\<close>

definition join_links :: "node \<Rightarrow> store \<Rightarrow> link_element list \<Rightarrow> (path \<times> path) list \<Rightarrow> link_element list" where
  "join_links source s els ls =
     map (\<lambda>(e, l). e\<lparr>link_datum := l, link_transition := Some (link_path s l, False)\<rparr>)
         (zip els ls)
     @ map (\<lambda>l. \<lparr>link_datum = l, d_attr = link_at_pivot source (H_abs 0),
                  link_transition = Some (link_path s l, False)\<rparr>)
           (drop (length els) ls)
     @ map (\<lambda>e. e\<lparr>link_transition := Some (link_at_pivot source (H_rel 0), True)\<rparr>)
           (drop (length ls) els)"

definition stash :: "path \<Rightarrow> store \<Rightarrow> store" where
  "stash d s = s(d := (s d)\<lparr>x0 := x (s d), y0 := y (s d)\<rparr>)"

definition update :: "path \<Rightarrow> state \<Rightarrow> state" where
  "update source st =
     (let data_nodes = descendants (root st) (heap st);
          height = max (min_height st) (int (length data_nodes) * row_height + margin_top);
          s1 = layout (root st) (heap st);
          (s2, c2) = bind_keys data_nodes
                       (bind_keys (map datum (nodes_dom st)) (s1, last_id st));
          new = entering s2 (nodes_dom st) data_nodes;
          s3 = foldl (\<lambda>s d. normalize_empty d s) s2 new;
          nodes = map (rejoin_element source s3 data_nodes) (nodes_dom st)
                  @ map (enter_element (tooltip_key_str st) source s2 s3) new;
          link = join_links (s3 source) s3 (links_dom st) (links (root st) s3);
          s4 = foldl (\<lambda>s d. stash d s) s3 (descendants (root st) s3)
      in st\<lparr>heap := s4, last_id := c2, svg_height := Some height,
            nodes_dom := nodes, links_dom := link\<rparr>)"

text \<open>
  Modelled from the spec: the end of the transitions of the drawing substrate. Every
  element reaches the target of its transition, and the elements whose transition ends
  with \<open>remove()\<close> are taken out of the drawing.
\<close>

definition finish :: "element \<Rightarrow> element" where
  "finish e = (case transition e of None \<Rightarrow> e
     | Some tr \<Rightarrow> e\<lparr>transform := to_transform tr, opacity := to_opacity tr,
                    transition := None\<rparr>)"

definition removing :: "element \<Rightarrow> bool" where
  "removing e = (case transition e of None \<Rightarrow> False | Some tr \<Rightarrow> then_remove tr)"

definition finish_link :: "link_element \<Rightarrow> link_element" where
  "finish_link e = (case link_transition e of None \<Rightarrow> e
     | Some (g, rm) \<Rightarrow> e\<lparr>d_attr := g, link_transition := None\<rparr>)"

definition removing_link :: "link_element \<Rightarrow> bool" where
  "removing_link e = (case link_transition e of None \<Rightarrow> False | Some (g, rm) \<Rightarrow> rm)"

definition settle :: "state \<Rightarrow> state" where
  "settle st =
     st\<lparr>nodes_dom := map finish (filter (\<lambda>e. \<not> removing e) (nodes_dom st)),
        links_dom := map finish_link (filter (\<lambda>e. \<not> removing_link e) (links_dom st))\<rparr>"

subsection \<open>\<open>click\<close> and \<open>load\<close>\<close>

text \<open>
  The toggle of \<open>click\<close>. Reading \<open>d._children\<close> when the Node has no such property
  gives \<open>undefined\<close>, which then is the value of the own property \<open>children\<close>.
\<close>

definition toggle :: "node \<Rightarrow> node" where
  "toggle d =
     (if children d \<noteq> Absent
      then d\<lparr>children' := children d, children := Absent\<rparr>
      else d\<lparr>children := (if children' d = Absent then Undefined else children' d),
             children' := Absent\<rparr>)"

text \<open>\<open>d3.select(this)\<close> in \<open>click\<close>: the clicked glyph, the one of the element bound
  to \<open>d\<close>, gets the icon and the fill of the toggled Node.\<close>

definition reglyph :: "path \<Rightarrow> node \<Rightarrow> element \<Rightarrow> element" where
  "reglyph d n e =
     (if datum e = d then e\<lparr>glyph_text := folder_icon n, fill := glyphicon_color n\<rparr> else e)"

definition click :: "path \<Rightarrow> state \<Rightarrow> state" where
  "click d st =
     (let s = (heap st)(d := toggle (heap st d));
          nodes = map (reglyph d (s d)) (nodes_dom st)
      in update d (st\<lparr>heap := s, nodes_dom := nodes\<rparr>))"

text \<open>
  \<open>load\<close>: the callback that the data-loading collaborator calls with its outcome, an
  error or the document. \<open>throw\<close> is the result \<open>Inl\<close>. \<open>start\<close> is the state in which
  the first \<open>update\<close> runs: the hierarchy just built, the root's \<open>x0\<close> and \<open>y0\<close> set,
  \<open>id = 0\<close>, nothing drawn.
\<close>

datatype error = Error string

definition start :: "widget \<Rightarrow> json \<Rightarrow> state" where
  "start w dat =
     \<lparr>min_height = min_height w, tooltip_key_str = tooltip_key_str w,
      root = dat,
      heap = (hierarchy dat)([] := (hierarchy dat [])\<lparr>x0 := Some 0, y0 := Some 0\<rparr>),
      last_id = 0, svg_height = None, nodes_dom = [], links_dom = []\<rparr>"

definition load :: "widget \<Rightarrow> error option \<Rightarrow> json \<Rightarrow> error + state" where
  "load w err dat =
     (case err of Some e \<Rightarrow> Inl e | None \<Rightarrow> Inr (update [] (start w dat)))"

text \<open>
  A click of the user on the glyph of the Node \<open>d\<close> runs \<open>click\<close> when a drawn element
  bound to \<open>d\<close> has the handler, and does nothing otherwise. A session of the widget: the
  document is loaded, then the user clicks on glyphs, each click after the animations of
  the previous pass have ended.
\<close>

definition user_click :: "path \<Rightarrow> state \<Rightarrow> state" where
  "user_click d st =
     (if list_ex (\<lambda>e. datum e = d \<and> on_click e) (nodes_dom st) then settle (click d st) else st)"

definition session :: "widget \<Rightarrow> json \<Rightarrow> path list \<Rightarrow> state" where
  "session w dat clicks = foldl (\<lambda>st d. user_click d st) (settle (update [] (start w dat))) clicks"

subsection \<open>What holds between two passes\<close>

text \<open>An id is truthy when it is defined and not 0. The ids in a store are in order
  when none is above the counter and no truthy id is the id of two Nodes.\<close>

definition truthy :: "nat option \<Rightarrow> bool" where
  "truthy k = (k \<noteq> None \<and> k \<noteq> Some 0)"

definition keys_ok :: "store \<times> nat \<Rightarrow> bool" where
  "keys_ok a =
     ((\<forall>p k. node_id (fst a p) = Some k \<longrightarrow> k \<le> snd a) \<and>
      (\<forall>p q. truthy (node_id (fst a p)) \<longrightarrow> node_id (fst a p) = node_id (fst a q) \<longrightarrow> p = q))"

text \<open>
  The state of the widget between two passes, for the widget \<open>w\<close> and the document \<open>t\<close>:
  every Node has its data, its depth and an id of its own; a Node with an empty
  \<open>children\<close> list in its data has been normalized; no Node has both \<open>children\<close> and
  \<open>_children\<close>; the drawn elements are those of the visible Nodes, at rest at the
  position of their Node; and the position of every visible Node is stashed.
\<close>

definition steady :: "widget \<Rightarrow> json \<Rightarrow> state \<Rightarrow> bool" where
  "steady w t st =
     (root st = t \<and> tooltip_key_str st = tooltip_key_str w
      \<and> keys_ok (heap st, last_id st)
      \<and> (\<forall>p. node_at t p \<noteq> None \<longrightarrow>
             truthy (node_id (heap st p)) \<and> node_at t p = Some (data (heap st p))
             \<and> depth (heap st p) = length p)
      \<and> (\<forall>p. json_children (data (heap st p)) = Some [] \<longrightarrow> has_slot (heap st p))
      \<and> (\<forall>p. children (heap st p) = Absent \<or> children' (heap st p) = Absent)
      \<and> datum ` set (nodes_dom st) = {p. visible t (heap st) p}
      \<and> (\<forall>e\<in>set (nodes_dom st).
             transition e = None \<and> opacity e = 1
             \<and> transform e = (x (heap st (datum e)), y (heap st (datum e)))
             \<and> on_click e = has_slot (heap st (datum e))
             \<and> listeners e = hover_listeners (tooltip_key_str w))
      \<and> (\<forall>p. visible t (heap st) p \<longrightarrow>
             x0 (heap st p) = x (heap st p) \<and> y0 (heap st p) = y (heap st p)))"

subsection \<open>Two documents\<close>

text \<open>A root with the folders \<open>a\<close> (holding \<open>c\<close>) and \<open>b\<close> (holding \<open>d\<close>), and a
  single item with an empty \<open>children\<close> list.\<close>

definition two_folders :: json where
  "two_folders =
     Json ''root'' [] (Some [Json ''a'' [] (Some [Json ''c'' [] None]),
                              Json ''b'' [] (Some [Json ''d'' [] None])])"

definition empty_folder :: json where
  "empty_folder = Json ''e'' [] (Some [])"

section \<open>Lemmas\<close>

subsection \<open>Paths, visibility and the pre-order list\<close>

lemma node_at_append:
  "node_at t (p @ q) = (case node_at t p of None \<Rightarrow> None | Some d \<Rightarrow> node_at d q)"
  by (induction p arbitrary: t) auto

lemma append_less_append: "(p @ a < p @ b) = (a < b)" for p :: path
  by (induction p) auto

lemma open_below_iff:
  "open_below s p q = (\<forall>k<length q. children (s (p @ take k q)) = Array)"
proof (induction q arbitrary: p)
  case Nil
  then show ?case by simp
next
  case (Cons i q)
  show ?case
  proof
    assume a: "open_below s p (i # q)"
    show "\<forall>k<length (i # q). children (s (p @ take k (i # q))) = Array"
    proof (intro allI impI)
      fix k assume "k < length (i # q)"
      then show "children (s (p @ take k (i # q))) = Array"
        using a Cons.IH [of "p @ [i]"] by (cases k) auto
    qed
  next
    assume a: "\<forall>k<length (i # q). children (s (p @ take k (i # q))) = Array"
    have "children (s p) = Array" using a by force
    moreover have "children (s ((p @ [i]) @ take k q)) = Array" if "k < length q" for k
      using a that by (auto dest: spec [of _ "Suc k"])
    ultimately show "open_below s p (i # q)"
      using Cons.IH [of "p @ [i]"] by simp
  qed
qed

lemma visible_open: "visible t s p = (node_at t p \<noteq> None \<and> open_below s [] p)"
  by (auto simp: visible_def open_below_iff list_all_iff)

lemma preorder_shape:
  "r \<in> set (preorder t p s) \<Longrightarrow> \<exists>q. r = p @ q"
  "r' \<in> set (preorder_list ks p' i s') \<Longrightarrow> \<exists>j q. r' = p' @ j # q \<and> i \<le> j \<and> j < i + length ks"
proof (induct t p s and ks p' i s' arbitrary: r and r' rule: preorder_preorder_list.induct)
  case (1 nm fl p s)
  then show ?case by simp
next
  case (2 nm fl ks p s)
  show ?case
  proof (cases "r = p")
    case True
    then show ?thesis by simp
  next
    case False
    then have ar: "children (s p) = Array" and r: "r \<in> set (preorder_list ks p 0 s)"
      using "2.prems" by (auto split: if_splits)
    from "2.hyps" [OF ar r] show ?thesis by blast
  qed
next
  case (3 p i s)
  then show ?case by simp
next
  case (4 k ks p i s)
  from "4.prems" consider "r' \<in> set (preorder k (p @ [i]) s)" | "r' \<in> set (preorder_list ks p (Suc i) s)"
    by auto
  then show ?case
  proof cases
    case 1
    then obtain q where "r' = (p @ [i]) @ q" using "4.hyps"(1) by blast
    then show ?thesis by auto
  next
    case 2
    then obtain j q where "r' = p @ j # q" "Suc i \<le> j" "j < Suc i + length ks"
      using "4.hyps"(2) by blast
    then show ?thesis by auto
  qed
qed

lemma preorder_sorted:
  "sorted_wrt (<) (preorder t p s)"
  "sorted_wrt (<) (preorder_list ks p' i s')"
proof (induct t p s and ks p' i s' rule: preorder_preorder_list.induct)
  case (1 nm fl p s)
  then show ?case by simp
next
  case (2 nm fl ks p s)
  have "p < r" if asm: "r \<in> set (preorder_list ks p 0 s)" for r
  proof -
    obtain j q where "r = p @ j # q" using preorder_shape(2) [OF asm] by blast
    then show ?thesis using append_less_append [of p "[]" "j # q"] by simp
  qed
  then show ?case using 2 by simp
next
  case (3 p i s)
  then show ?case by simp
next
  case (4 k ks p i s)
  have "a < b" if asm: "a \<in> set (preorder k (p @ [i]) s)" "b \<in> set (preorder_list ks p (Suc i) s)" for a b
  proof -
    obtain q where a: "a = (p @ [i]) @ q" using preorder_shape(1) [OF asm(1)] by blast
    obtain j q' where b: "b = p @ j # q'" "Suc i \<le> j" using preorder_shape(2) [OF asm(2)] by blast
    show ?thesis using a b append_less_append [of p "i # q" "j # q'"] by simp
  qed
  then show ?case using 4 by (simp add: sorted_wrt_append)
qed

lemma mem_preorder:
  "(p @ q \<in> set (preorder t p s)) = (node_at t q \<noteq> None \<and> open_below s p q)"
  "(p' @ j # q' \<in> set (preorder_list ks p' i s')) =
     (i \<le> j \<and> j - i < length ks \<and> node_at (ks ! (j - i)) q' \<noteq> None \<and> open_below s' (p' @ [j]) q')"
proof (induct t p s and ks p' i s' arbitrary: q and q' j rule: preorder_preorder_list.induct)
  case (1 nm fl p s)
  show ?case by (cases q) simp_all
next
  case (2 nm fl ks p s)
  show ?case
  proof (cases q)
    case Nil
    then show ?thesis by simp
  next
    case (Cons j q')
    show ?thesis
    proof (cases "children (s p) = Array")
      case False
      then show ?thesis using Cons by simp
    next
      case True
      then show ?thesis using Cons "2.hyps" [OF True, of j q'] by simp
    qed
  qed
next
  case (3 p i s)
  then show ?case by simp
next
  case (4 k ks p i s)
  have first: "(p @ j # q' \<in> set (preorder k (p @ [i]) s)) = (j = i \<and> node_at k q' \<noteq> None \<and> open_below s (p @ [i]) q')"
  proof (cases "j = i")
    case True
    then show ?thesis using "4.hyps"(1) [of q'] by simp
  next
    case False
    have "p @ j # q' \<notin> set (preorder k (p @ [i]) s)"
    proof
      assume "p @ j # q' \<in> set (preorder k (p @ [i]) s)"
      then obtain q'' where "p @ j # q' = (p @ [i]) @ q''" using preorder_shape(1) by blast
      then show False using False by simp
    qed
    then show ?thesis using False by simp
  qed
  have second: "(p @ j # q' \<in> set (preorder_list ks p (Suc i) s)) =
     (Suc i \<le> j \<and> j - Suc i < length ks \<and> node_at (ks ! (j - Suc i)) q' \<noteq> None \<and> open_below s (p @ [j]) q')"
    using "4.hyps"(2) [of j q'] .
  show ?case
  proof (cases "j = i")
    case True
    then show ?thesis using first second by auto
  next
    case False
    then show ?thesis using first second
      by (cases "i < j") (auto simp: Suc_diff_Suc nth_Cons')
  qed
qed

lemma set_preorder: "set (preorder t [] s) = {p. visible t s p}"
  using mem_preorder(1) [of "[]" _ t s] by (auto simp: visible_open)

subsection \<open>The layout pass\<close>

lemma preorder_cong:
  "(\<And>r. children (s r) = children (u r)) \<Longrightarrow> preorder t p s = preorder t p u"
  "(\<And>r. children (s' r) = children (u' r)) \<Longrightarrow> preorder_list ks p' i s' = preorder_list ks p' i u'"
  by (induct t p s and ks p' i s' arbitrary: u and u' rule: preorder_preorder_list.induct) auto

lemma foldl_keeps:
  assumes "\<And>q a r. children (fst (cb q a) r) = children (fst a r)"
  shows "children (fst (foldl (\<lambda>a q. cb q a) a qs) r) = children (fst a r)"
  by (induction qs arbitrary: a) (simp_all add: assms)

lemma eachBefore_foldl:
  "(\<And>q a r. children (fst (cb q a) r) = children (fst a r)) \<Longrightarrow>
     eachBefore cb t p a = foldl (\<lambda>a q. cb q a) a (preorder t p (fst a))"
  "(\<And>q a r. children (fst (cb' q a) r) = children (fst a r)) \<Longrightarrow>
     eachBefore_list cb' ks p' i a' = foldl (\<lambda>a q. cb' q a) a' (preorder_list ks p' i (fst a'))"
  for cb cb' :: "path \<Rightarrow> store \<times> 'a \<Rightarrow> store \<times> 'a"
proof (induct cb t p a and cb' ks p' i a' rule: eachBefore_eachBefore_list.induct)
  case (1 cb nm fl p st)
  then show ?case by simp
next
  case (2 cb nm fl ks p st)
  note keeps = "2.prems"
  have same: "preorder_list ks p 0 (fst (cb p st)) = preorder_list ks p 0 (fst st)"
    by (rule preorder_cong(2)) (simp add: keeps)
  show ?case
  proof (cases "children (fst st p) = Array")
    case True
    then show ?thesis using "2.hyps" [OF refl _ keeps] keeps [of p st p] same by (simp add: Let_def)
  next
    case False
    then show ?thesis using keeps [of p st p] by (simp add: Let_def)
  qed
next
  case (3 cb p i st)
  then show ?case by simp
next
  case (4 cb k ks p i st)
  note keeps = "4.prems"
  have same: "preorder_list ks p (Suc i) (fst (foldl (\<lambda>a q. cb q a) st (preorder k (p @ [i]) (fst st))))
      = preorder_list ks p (Suc i) (fst st)"
    by (rule preorder_cong(2)) (simp add: foldl_keeps [of cb, OF keeps])
  show ?case using "4.hyps"(1) [OF keeps] "4.hyps"(2) [OF keeps] same by simp
qed

lemma layout_cb_keeps: "children (fst (layout_cb q a) r) = children (fst a r)"
  by (cases a) (simp add: layout_cb_def place_def)

lemma foldl_layout:
  "distinct qs \<Longrightarrow>
   foldl (\<lambda>a q. layout_cb q a) (s, r) qs =
     (\<lambda>q. if q \<in> set qs then place (s q) (r + 1 + int (length (takeWhile (\<lambda>u. u \<noteq> q) qs))) else s q,
      r + int (length qs))"
proof (induction qs arbitrary: s r)
  case Nil
  then show ?case by simp
next
  case (Cons a qs)
  have "foldl (\<lambda>a q. layout_cb q a) (s, r) (a # qs)
      = foldl (\<lambda>a q. layout_cb q a) (s(a := place (s a) (r + 1)), r + 1) qs"
    by (simp add: layout_cb_def)
  also have "\<dots> = (\<lambda>q. if q \<in> set qs
        then place ((s(a := place (s a) (r + 1))) q) (r + 1 + 1 + int (length (takeWhile (\<lambda>u. u \<noteq> q) qs)))
        else (s(a := place (s a) (r + 1))) q, r + 1 + int (length qs))"
    using Cons.prems by (subst Cons.IH) simp_all
  also have "\<dots> = (\<lambda>q. if q \<in> set (a # qs)
        then place (s q) (r + 1 + int (length (takeWhile (\<lambda>u. u \<noteq> q) (a # qs)))) else s q,
      r + int (length (a # qs)))"
    using Cons.prems by (auto simp: fun_eq_iff ac_simps)
  finally show ?case .
qed

lemma rank_sorted:
  "sorted_wrt (<) qs \<Longrightarrow> q \<in> set qs \<Longrightarrow>
   length (takeWhile (\<lambda>u. u \<noteq> q) qs) = length (filter (\<lambda>u. u < q) qs)" for q :: path
proof (induction qs)
  case Nil
  then show ?case by simp
next
  case (Cons a qs)
  show ?case
  proof (cases "a = q")
    case True
    have "filter (\<lambda>u. u < q) qs = []"
      using Cons.prems(1) True by (auto simp: filter_empty_conv)
    then show ?thesis using True by simp
  next
    case False
    then have "q \<in> set qs" using Cons.prems by simp
    moreover have "a < q" using Cons.prems(1) \<open>q \<in> set qs\<close> by simp
    ultimately show ?thesis using Cons False by simp
  qed
qed

lemma distinct_preorder: "distinct (preorder t p s)"
  using preorder_sorted(1) [of t p s] by (simp add: strict_sorted_iff)

lemma layout_eq:
  "layout t s = (\<lambda>p. if visible t s p then place (s p) (rank t s p) else s p)"
proof -
  have "eachBefore layout_cb t [] (s, - 1) = foldl (\<lambda>a q. layout_cb q a) (s, - 1) (preorder t [] s)"
    using eachBefore_foldl(1) [of layout_cb t "[]" "(s, - 1)", OF layout_cb_keeps] by simp
  then have "layout t s = (\<lambda>q. if q \<in> set (preorder t [] s)
      then place (s q) (int (length (takeWhile (\<lambda>u. u \<noteq> q) (preorder t [] s)))) else s q)"
    by (simp add: layout_def foldl_layout [OF distinct_preorder] cong: if_cong)
  then show ?thesis
    by (auto simp: fun_eq_iff rank_def set_preorder)
qed

subsection \<open>The breadth-first traversal\<close>

lemma node_at_snoc:
  "node_at t (p @ [i]) = (case node_at t p of None \<Rightarrow> None
     | Some d \<Rightarrow> if i < length (kids d) then Some (kids d ! i) else None)"
  by (simp add: node_at_append split: option.splits)

lemma mem_child_nodes:
  "(r \<in> set (child_nodes t s p)) =
     (children (s p) = Array \<and> (\<exists>d i. node_at t p = Some d \<and> i < length (kids d) \<and> r = p @ [i]))"
  by (cases "children (s p) = Array"; cases "node_at t p") (auto simp: child_nodes_def)

lemma set_each_loop:
  "set (each_loop t s ps) =
     {p @ q | p q. p \<in> set ps \<and> open_below s p q \<and> (q = [] \<or> node_at t (p @ q) \<noteq> None)}"
proof (induction t s ps rule: each_loop.induct)
  case (1 t s ps)
  let ?R = "\<lambda>ps. {p @ q | p q. p \<in> set ps \<and> open_below s p q \<and> (q = [] \<or> node_at t (p @ q) \<noteq> None)}"
  show ?case
  proof (cases "ps = []")
    case True
    then show ?thesis by (subst each_loop.simps) simp
  next
    case False
    let ?cs = "concat (map (child_nodes t s) ps)"
    have IH: "set (each_loop t s ?cs) = ?R ?cs"
      using "1.IH" [OF False] .
    have step: "?R ps = set ps \<union> ?R ?cs"
    proof (intro set_eqI iffI)
      fix r assume "r \<in> ?R ps"
      then obtain p q where r: "r = p @ q" and p: "p \<in> set ps" and ob: "open_below s p q"
        and v: "q = [] \<or> node_at t (p @ q) \<noteq> None" by blast
      show "r \<in> set ps \<union> ?R ?cs"
      proof (cases q)
        case Nil
        then show ?thesis using r p by simp
      next
        case (Cons i q')
        then have valid: "node_at t (p @ i # q') \<noteq> None" using v by simp
        then obtain d where d: "node_at t p = Some d" and i: "i < length (kids d)"
          by (auto simp: node_at_append split: option.splits if_splits)
        have "p @ [i] \<in> set ?cs"
          using p ob Cons d i by (auto simp: mem_child_nodes)
        moreover have "open_below s (p @ [i]) q'" using ob Cons by simp
        moreover have "node_at t ((p @ [i]) @ q') \<noteq> None" using valid by simp
        ultimately have "(p @ [i]) @ q' \<in> ?R ?cs" by blast
        then show ?thesis using r Cons by simp
      qed
    next
      fix r assume "r \<in> set ps \<union> ?R ?cs"
      then consider "r \<in> set ps" | "r \<in> ?R ?cs" by blast
      then show "r \<in> ?R ps"
      proof cases
        case 1
        then have "r = r @ [] \<and> r \<in> set ps \<and> open_below s r []" by simp
        then show ?thesis by blast
      next
        case 2
        then obtain p' q' where r: "r = p' @ q'" and p': "p' \<in> set ?cs"
          and ob: "open_below s p' q'" and v: "q' = [] \<or> node_at t (p' @ q') \<noteq> None" by blast
        from p' obtain p d i where p: "p \<in> set ps" and ar: "children (s p) = Array"
          and d: "node_at t p = Some d" and i: "i < length (kids d)" and p'_def: "p' = p @ [i]"
          by (auto simp: mem_child_nodes)
        have "node_at t (p @ [i]) \<noteq> None" using d i by (simp add: node_at_snoc)
        then have "node_at t (p @ i # q') \<noteq> None" using v p'_def by (cases "q' = []") auto
        moreover have "open_below s p (i # q')" using ar ob p'_def by simp
        moreover have "r = p @ i # q'" using r p'_def by simp
        ultimately show ?thesis using p by blast
      qed
    qed
    have "set (each_loop t s ps) = set ps \<union> set (each_loop t s ?cs)"
      using False by (subst each_loop.simps) simp
    then show ?thesis using IH step by simp
  qed
qed

lemma set_descendants: "set (descendants t s) = {p. visible t s p}"
  by (auto simp: descendants_def set_each_loop visible_open)

lemma open_below_cong:
  assumes "\<forall>r. (children (s r) = Array) = (children (u r) = Array)"
  shows "open_below s p q = open_below u p q"
proof (induction q arbitrary: p)
  case Nil
  show ?case by simp
next
  case (Cons i q)
  have "(children (s p) = Array) = (children (u p) = Array)"
    using assms by (rule spec)
  then show ?case using Cons.IH [of "p @ [i]"] by simp
qed

lemma visible_cong:
  assumes "\<forall>r. (children (s r) = Array) = (children (u r) = Array)"
  shows "visible t s p = visible t u p"
  using open_below_cong [OF assms, of "[]" p] by (simp add: visible_open)

lemma child_nodes_cong:
  assumes "\<forall>r. (children (s r) = Array) = (children (u r) = Array)"
  shows "child_nodes t s = child_nodes t u"
proof
  fix p
  have "(children (s p) = Array) = (children (u p) = Array)"
    using assms by (rule spec)
  then show "child_nodes t s p = child_nodes t u p"
    by (simp add: child_nodes_def)
qed

lemma each_loop_Nil: "each_loop t s [] = []"
  by (subst each_loop.simps) simp

lemma each_loop_step:
  "ps \<noteq> [] \<Longrightarrow> each_loop t s ps = ps @ each_loop t s (concat (map (child_nodes t s) ps))"
  by (subst each_loop.simps) simp

lemma each_loop_cong:
  "\<forall>r. (children (s r) = Array) = (children (u r) = Array) \<Longrightarrow> each_loop t s ps = each_loop t u ps"
proof (induction t s ps rule: each_loop.induct)
  case (1 t s ps)
  have cn: "child_nodes t s = child_nodes t u" using "1.prems" by (rule child_nodes_cong)
  show ?case
  proof (cases "ps = []")
    case True
    then show ?thesis by (simp add: each_loop_Nil)
  next
    case False
    let ?cs = "concat (map (child_nodes t s) ps)"
    have IH: "each_loop t s ?cs = each_loop t u ?cs"
      by (rule "1.IH" [OF False]) (rule "1.prems")
    have a: "each_loop t s ps = ps @ each_loop t s ?cs"
      using False by (rule each_loop_step)
    have b: "each_loop t u ps = ps @ each_loop t u ?cs"
      unfolding cn using False by (rule each_loop_step)
    show ?thesis unfolding a b IH ..
  qed
qed

lemma descendants_cong:
  "\<forall>r. (children (s r) = Array) = (children (u r) = Array) \<Longrightarrow> descendants t s = descendants t u"
  by (simp add: descendants_def each_loop_cong)

subsection \<open>Ids\<close>

lemma layout_same:
  "data (layout t s p) = data (s p)"
  "depth (layout t s p) = depth (s p)"
  "children (layout t s p) = children (s p)"
  "children' (layout t s p) = children' (s p)"
  "node_id (layout t s p) = node_id (s p)"
  "x0 (layout t s p) = x0 (s p)"
  "y0 (layout t s p) = y0 (s p)"
  by (simp_all add: layout_eq place_def)

lemma foldl_preserve:
  assumes "\<And>a d. P (f a d) = P a"
  shows "P (foldl f a ds) = P a"
  by (induction ds arbitrary: a) (simp_all add: assms)

lemma key_fn_cases:
  "key_fn d a = (if truthy (node_id (fst a d)) then a
                 else ((fst a)(d := (fst a d)\<lparr>node_id := Some (Suc (snd a))\<rparr>), Suc (snd a)))"
  by (cases a) (auto simp: key_fn_def truthy_def)

lemma key_fn_same:
  "data (fst (key_fn d a) p) = data (fst a p)"
  "depth (fst (key_fn d a) p) = depth (fst a p)"
  "children (fst (key_fn d a) p) = children (fst a p)"
  "children' (fst (key_fn d a) p) = children' (fst a p)"
  "x (fst (key_fn d a) p) = x (fst a p)"
  "y (fst (key_fn d a) p) = y (fst a p)"
  "row (fst (key_fn d a) p) = row (fst a p)"
  "x0 (fst (key_fn d a) p) = x0 (fst a p)"
  "y0 (fst (key_fn d a) p) = y0 (fst a p)"
  by (simp_all add: key_fn_cases)

lemma bind_keys_same:
  "data (fst (bind_keys ds a) p) = data (fst a p)"
  "depth (fst (bind_keys ds a) p) = depth (fst a p)"
  "children (fst (bind_keys ds a) p) = children (fst a p)"
  "children' (fst (bind_keys ds a) p) = children' (fst a p)"
  "x (fst (bind_keys ds a) p) = x (fst a p)"
  "y (fst (bind_keys ds a) p) = y (fst a p)"
  "row (fst (bind_keys ds a) p) = row (fst a p)"
  "x0 (fst (bind_keys ds a) p) = x0 (fst a p)"
  "y0 (fst (bind_keys ds a) p) = y0 (fst a p)"
  unfolding bind_keys_def
  by (rule foldl_preserve, simp add: key_fn_same)+

lemma key_fn_ok: "keys_ok a \<Longrightarrow> keys_ok (key_fn d a)"
proof (cases "truthy (node_id (fst a d))")
  case True
  assume "keys_ok a"
  then show ?thesis using True by (simp add: key_fn_cases)
next
  case False
  assume ok: "keys_ok a"
  have bound: "k \<le> snd a" if "node_id (fst a p) = Some k" for p k
    using ok that by (auto simp: keys_ok_def)
  have inj: "p = q" if "truthy (node_id (fst a p))" "node_id (fst a p) = node_id (fst a q)" for p q
    using ok that by (auto simp: keys_ok_def)
  show ?thesis
    unfolding keys_ok_def
  proof (intro conjI allI impI)
    fix p k assume "node_id (fst (key_fn d a) p) = Some k"
    then show "k \<le> snd (key_fn d a)"
      using False bound [of p k] by (auto simp: key_fn_cases split: if_splits)
  next
    fix p q
    assume t: "truthy (node_id (fst (key_fn d a) p))"
      and e: "node_id (fst (key_fn d a) p) = node_id (fst (key_fn d a) q)"
    show "p = q"
    proof (cases "p = d")
      case True
      show ?thesis
      proof (rule ccontr)
        assume "p \<noteq> q"
        then have "node_id (fst a q) = Some (Suc (snd a))"
          using e True False by (simp add: key_fn_cases)
        then show False using bound [of q "Suc (snd a)"] by simp
      qed
    next
      case pd: False
      show ?thesis
      proof (cases "q = d")
        case True
        then have "node_id (fst a p) = Some (Suc (snd a))"
          using e pd False by (simp add: key_fn_cases)
        then show ?thesis using bound [of p "Suc (snd a)"] by simp
      next
        case qd: False
        then show ?thesis using t e pd False inj [of p q] by (simp add: key_fn_cases)
      qed
    qed
  qed
qed

lemma key_fn_truthy:
  "truthy (node_id (fst (key_fn d a) d))"
  "truthy (node_id (fst a p)) \<Longrightarrow> node_id (fst (key_fn d a) p) = node_id (fst a p)"
  by (auto simp: key_fn_cases truthy_def)

lemma bind_keys_Nil [simp]: "bind_keys [] a = a"
  by (simp add: bind_keys_def)

lemma bind_keys_Cons [simp]: "bind_keys (d # ds) a = bind_keys ds (key_fn d a)"
  by (simp add: bind_keys_def)

lemma bind_keys_append [simp]: "bind_keys (ds @ es) a = bind_keys es (bind_keys ds a)"
  by (simp add: bind_keys_def)

lemma bind_keys_ok: "keys_ok a \<Longrightarrow> keys_ok (bind_keys ds a)"
  by (induction ds arbitrary: a) (simp_all add: key_fn_ok)

lemma bind_keys_keeps:
  "truthy (node_id (fst a p)) \<Longrightarrow> node_id (fst (bind_keys ds a) p) = node_id (fst a p)"
proof (induction ds arbitrary: a)
  case Nil
  then show ?case by simp
next
  case (Cons d ds)
  have "truthy (node_id (fst (key_fn d a) p))"
    using Cons.prems key_fn_truthy(2) [of a p d] by simp
  then show ?case using Cons.IH [of "key_fn d a"] Cons.prems key_fn_truthy(2) [of a p d] by simp
qed

lemma bind_keys_truthy:
  "d \<in> set ds \<Longrightarrow> truthy (node_id (fst (bind_keys ds a) d))"
proof (induction ds arbitrary: a)
  case Nil
  then show ?case by simp
next
  case (Cons e ds)
  show ?case
  proof (cases "d = e")
    case True
    have "truthy (node_id (fst (key_fn e a) e))" by (rule key_fn_truthy(1))
    then show ?thesis using True bind_keys_keeps [of "key_fn e a" e ds] by simp
  next
    case False
    then show ?thesis using Cons by simp
  qed
qed

lemma bind_keys_idle:
  "\<forall>d\<in>set ds. truthy (node_id (fst a d)) \<Longrightarrow> bind_keys ds a = a"
  by (induction ds) (simp_all add: key_fn_cases)

subsection \<open>Normalizing, stashing, and a pass that assigns nothing\<close>

lemma normalize_empty_cases:
  "normalize_empty d s = (if json_children (data (s d)) = Some [] \<and> \<not> has_slot (s d)
                    then s(d := (s d)\<lparr>children := Null\<rparr>) else s)"
  by (simp add: normalize_empty_def has_slot_def)

lemma foldl_normalize_empty:
  "foldl (\<lambda>s d. normalize_empty d s) s ds =
     (\<lambda>p. if p \<in> set ds \<and> json_children (data (s p)) = Some [] \<and> \<not> has_slot (s p)
          then (s p)\<lparr>children := Null\<rparr> else s p)"
proof (induction ds rule: rev_induct)
  case Nil
  then show ?case by simp
next
  case (snoc d ds)
  show ?case
    unfolding foldl_append foldl_Cons foldl_Nil snoc.IH
    by (auto simp: normalize_empty_cases fun_eq_iff has_slot_def)
qed

lemma foldl_stash:
  "foldl (\<lambda>s d. stash d s) s ds =
     (\<lambda>p. if p \<in> set ds then (s p)\<lparr>x0 := x (s p), y0 := y (s p)\<rparr> else s p)"
proof (induction ds rule: rev_induct)
  case Nil
  then show ?case by simp
next
  case (snoc d ds)
  show ?case
    unfolding foldl_append foldl_Cons foldl_Nil snoc.IH
    by (auto simp: stash_def fun_eq_iff)
qed

lemma foldl_normalize_empty_idle:
  "\<forall>p\<in>set ds. json_children (data (s p)) = Some [] \<longrightarrow> has_slot (s p) \<Longrightarrow>
   foldl (\<lambda>s d. normalize_empty d s) s ds = s"
  by (auto simp: foldl_normalize_empty fun_eq_iff)

lemma normalize_empty_open:
  "(children (foldl (\<lambda>s d. normalize_empty d s) s ds r) = Array) = (children (s r) = Array)"
  by (auto simp: foldl_normalize_empty has_slot_def)

lemma layout_open: "(children (layout t s r) = Array) = (children (s r) = Array)"
  by (simp add: layout_same)

lemma descendants_layout [simp]: "descendants t (layout t s) = descendants t s"
  by (rule descendants_cong) (simp add: layout_same)

lemma visible_layout [simp]: "visible t (layout t s) p = visible t s p"
  by (rule visible_cong) (simp add: layout_same)

text \<open>A pass in which no id is assigned and no Node is normalized.\<close>

lemma update_idle:
  assumes ids: "\<forall>d\<in>set (descendants (root st) (heap st)) \<union> datum ` set (nodes_dom st).
                  truthy (node_id (heap st d))"
    and norm: "\<forall>p. json_children (data (heap st p)) = Some [] \<longrightarrow> has_slot (heap st p)"
  shows "update src st =
     st\<lparr>heap := foldl (\<lambda>s d. stash d s) (layout (root st) (heap st)) (descendants (root st) (heap st)),
        svg_height := Some (max (min_height st)
           (int (length (descendants (root st) (heap st))) * row_height + margin_top)),
        nodes_dom :=
          map (rejoin_element src (layout (root st) (heap st)) (descendants (root st) (heap st)))
              (nodes_dom st)
          @ map (enter_element (tooltip_key_str st) src (layout (root st) (heap st))
                   (layout (root st) (heap st)))
              (entering (layout (root st) (heap st)) (nodes_dom st) (descendants (root st) (heap st))),
        links_dom := join_links (layout (root st) (heap st) src) (layout (root st) (heap st))
           (links_dom st) (links (root st) (heap st))\<rparr>"
proof -
  let ?L = "layout (root st) (heap st)"
  let ?ds = "descendants (root st) (heap st)"
  have k1: "bind_keys (map datum (nodes_dom st)) (?L, last_id st) = (?L, last_id st)"
    by (rule bind_keys_idle) (use ids in \<open>simp add: layout_same\<close>)
  have k2: "bind_keys ?ds (?L, last_id st) = (?L, last_id st)"
    by (rule bind_keys_idle) (use ids in \<open>simp add: layout_same\<close>)
  have n: "foldl (\<lambda>s d. normalize_empty d s) ?L ds = ?L" for ds
    by (rule foldl_normalize_empty_idle) (use norm in \<open>simp add: layout_same has_slot_def\<close>)
  have l: "links (root st) ?L = links (root st) (heap st)"
    by (simp add: links_def)
  show ?thesis
    by (simp add: update_def Let_def k1 k2 n l)
qed

subsection \<open>The join by key, and the toggle\<close>

lemma visible_valid: "visible t s p \<Longrightarrow> node_at t p \<noteq> None"
  by (simp add: visible_def)

lemma visible_root [simp]: "visible t s []"
  by (simp add: visible_def)

text \<open>With ids of their own, the join by key is the join by Node.\<close>

lemma matching_inj:
  assumes inj: "\<And>q. q \<in> set ds \<Longrightarrow> node_id (s q) = node_id (s (datum e)) \<Longrightarrow> q = datum e"
  shows "matching s ds e = (if datum e \<in> set ds then Some (datum e) else None)"
proof (cases "datum e \<in> set ds")
  case True
  then obtain q where q: "find (\<lambda>d. node_id (s d) = node_id (s (datum e))) ds = Some q"
    by (cases "find (\<lambda>d. node_id (s d) = node_id (s (datum e))) ds") (auto simp: find_None_iff)
  then have "q \<in> set ds" "node_id (s q) = node_id (s (datum e))"
    by (auto simp: find_Some_iff)
  then have "q = datum e" by (rule inj)
  then show ?thesis using q True by (simp add: matching_def)
next
  case False
  have "find (\<lambda>d. node_id (s d) = node_id (s (datum e))) ds = None"
  proof (rule ccontr)
    assume "find (\<lambda>d. node_id (s d) = node_id (s (datum e))) ds \<noteq> None"
    then obtain q where "find (\<lambda>d. node_id (s d) = node_id (s (datum e))) ds = Some q" by blast
    then have "q \<in> set ds" "node_id (s q) = node_id (s (datum e))"
      by (auto simp: find_Some_iff)
    then have "q = datum e" by (rule inj)
    then show False using False \<open>q \<in> set ds\<close> by simp
  qed
  then show ?thesis using False by (simp add: matching_def)
qed

lemma entering_inj:
  assumes inj: "\<And>q e. q \<in> set ds \<Longrightarrow> e \<in> set els \<Longrightarrow> node_id (s q) = node_id (s (datum e)) \<Longrightarrow> q = datum e"
  shows "entering s els ds = filter (\<lambda>q. q \<notin> datum ` set els) ds"
  unfolding entering_def
proof (rule filter_cong [OF refl])
  fix q assume q: "q \<in> set ds"
  show "(node_id (s q) \<notin> set (map (\<lambda>e. node_id (s (datum e))) els)) = (q \<notin> datum ` set els)"
    using inj [OF q] by auto
qed

lemma visible_upd_self:
  "visible t (s(d := n)) d = visible t s d"
proof -
  have "take k d \<noteq> d" if "k < length d" for k
    using that by (metis length_take min.absorb4 nat_neq_iff)
  then show ?thesis by (simp add: visible_def list_all_iff)
qed

lemma has_slot_toggle [simp]: "has_slot (toggle n)"
  by (simp add: has_slot_def toggle_def)

lemma toggle_swap:
  "has_slot n \<Longrightarrow> children n = Absent \<or> children' n = Absent \<Longrightarrow>
   toggle n = n\<lparr>children := children' n, children' := children n\<rparr>"
  by (auto simp: toggle_def has_slot_def)

lemma toggle_same:
  "data (toggle n) = data n" "depth (toggle n) = depth n" "node_id (toggle n) = node_id n"
  "x (toggle n) = x n" "y (toggle n) = y n" "row (toggle n) = row n"
  "x0 (toggle n) = x0 n" "y0 (toggle n) = y0 n"
  by (simp_all add: toggle_def)

lemma toggle_one_slot: "children (toggle n) = Absent \<or> children' (toggle n) = Absent"
  by (simp add: toggle_def)

lemma keys_ok_cong:
  "(\<And>p. node_id (u p) = node_id (s p)) \<Longrightarrow> keys_ok (u, c) = keys_ok (s, c)"
  by (simp add: keys_ok_def)

lemma settle_nodes:
  "nodes_dom (settle st) = map finish (filter (\<lambda>e. \<not> removing e) (nodes_dom st))"
  by (simp add: settle_def)

lemma settle_same [simp]:
  "heap (settle st) = heap st" "root (settle st) = root st" "last_id (settle st) = last_id st"
  "tooltip_key_str (settle st) = tooltip_key_str st" "min_height (settle st) = min_height st"
  by (simp_all add: settle_def)

subsection \<open>A click in a steady state\<close>

lemma reglyph_same [simp]:
  "datum (reglyph d n e) = datum e" "transform (reglyph d n e) = transform e"
  "opacity (reglyph d n e) = opacity e" "on_click (reglyph d n e) = on_click e"
  "listeners (reglyph d n e) = listeners e" "transition (reglyph d n e) = transition e"
  by (simp_all add: reglyph_def)

lemma steadyD:
  assumes "steady w t st"
  shows "root st = t" "tooltip_key_str st = tooltip_key_str w" "keys_ok (heap st, last_id st)"
    and "\<And>p. node_at t p \<noteq> None \<Longrightarrow> truthy (node_id (heap st p))"
    and "\<And>p. node_at t p \<noteq> None \<Longrightarrow> node_at t p = Some (data (heap st p))"
    and "\<And>p. node_at t p \<noteq> None \<Longrightarrow> depth (heap st p) = length p"
    and "\<And>p. json_children (data (heap st p)) = Some [] \<Longrightarrow> has_slot (heap st p)"
    and "\<And>p. children (heap st p) = Absent \<or> children' (heap st p) = Absent"
    and "datum ` set (nodes_dom st) = {p. visible t (heap st) p}"
    and "\<And>e. e \<in> set (nodes_dom st) \<Longrightarrow> transition e = None"
    and "\<And>e. e \<in> set (nodes_dom st) \<Longrightarrow> opacity e = 1"
    and "\<And>e. e \<in> set (nodes_dom st) \<Longrightarrow> transform e = (x (heap st (datum e)), y (heap st (datum e)))"
    and "\<And>e. e \<in> set (nodes_dom st) \<Longrightarrow> on_click e = has_slot (heap st (datum e))"
    and "\<And>e. e \<in> set (nodes_dom st) \<Longrightarrow> listeners e = hover_listeners (tooltip_key_str w)"
    and "\<And>p. visible t (heap st) p \<Longrightarrow> x0 (heap st p) = x (heap st p)"
    and "\<And>p. visible t (heap st) p \<Longrightarrow> y0 (heap st p) = y (heap st p)"
  using assms unfolding steady_def by blast+

lemma steady_inj:
  assumes "steady w t st" "node_at t p \<noteq> None" "node_id (heap st p) = node_id (heap st q)"
  shows "p = q"
  using steadyD(3) [OF assms(1)] steadyD(4) [OF assms(1) assms(2)] assms(3)
  by (auto simp: keys_ok_def)

lemma steady_drawn_valid:
  assumes "steady w t st" "e \<in> set (nodes_dom st)"
  shows "visible t (heap st) (datum e)" "node_at t (datum e) \<noteq> None"
proof -
  show "visible t (heap st) (datum e)"
    using steadyD(9) [OF assms(1)] assms(2) by blast
  then show "node_at t (datum e) \<noteq> None" by (rule visible_valid)
qed

text \<open>What a click does in a steady state.\<close>

lemma click_steady:
  assumes st: "steady w t st" and dv: "node_at t d \<noteq> None"
  defines "h \<equiv> (heap st)(d := toggle (heap st d))"
  defines "L \<equiv> layout t h"
  defines "ds \<equiv> descendants t h"
  shows "click d st =
     st\<lparr>heap := foldl (\<lambda>s q. stash q s) L ds,
        svg_height := Some (max (min_height st) (int (length ds) * row_height + margin_top)),
        nodes_dom :=
          map (\<lambda>e. if datum e \<in> set ds
                then (reglyph d (h d) e)\<lparr>transition :=
                   Some \<lparr>to_transform = (x (L (datum e)), y (L (datum e))), to_opacity = 1,
                         then_remove = False\<rparr>\<rparr>
                else (reglyph d (h d) e)\<lparr>transition :=
                   Some \<lparr>to_transform = (x (L d), y (L d)), to_opacity = 0,
                         then_remove = True\<rparr>\<rparr>) (nodes_dom st)
          @ map (enter_element (tooltip_key_str st) d L L)
              (filter (\<lambda>q. q \<notin> datum ` set (nodes_dom st)) ds),
        links_dom := join_links (L d) L (links_dom st) (links t h)\<rparr>"
proof -
  let ?old = "map (reglyph d (h d)) (nodes_dom st)"
  let ?st1 = "st\<lparr>heap := h, nodes_dom := ?old\<rparr>"
  have rt: "root st = t" using st by (rule steadyD)
  have c: "click d st = update d ?st1"
    by (simp add: click_def Let_def h_def)
  have id_h: "node_id (h p) = node_id (heap st p)" for p
    by (simp add: h_def toggle_same)
  have ids: "\<forall>q\<in>set (descendants (root ?st1) (heap ?st1)) \<union> datum ` set (nodes_dom ?st1).
      truthy (node_id (heap ?st1 q))"
  proof
    fix q assume "q \<in> set (descendants (root ?st1) (heap ?st1)) \<union> datum ` set (nodes_dom ?st1)"
    then have "node_at t q \<noteq> None"
      using rt steady_drawn_valid(2) [OF st]
      by (auto simp: set_descendants dest: visible_valid)
    then show "truthy (node_id (heap ?st1 q))"
      using steadyD(4) [OF st] by (simp add: id_h)
  qed
  have norm: "\<forall>p. json_children (data (heap ?st1 p)) = Some [] \<longrightarrow> has_slot (heap ?st1 p)"
    using steadyD(7) [OF st] by (simp add: h_def toggle_same)
  have inj: "q = datum e" if "q \<in> set ds" "e \<in> set ?old" "node_id (L q) = node_id (L (datum e))" for q e
  proof -
    have "node_at t q \<noteq> None"
      using that(1) by (auto simp: ds_def set_descendants dest: visible_valid)
    moreover have "node_id (heap st q) = node_id (heap st (datum e))"
      using that(3) by (simp add: L_def layout_same id_h)
    ultimately show ?thesis using steady_inj [OF st] by blast
  qed
  have m: "rejoin_element d L ds e =
      (if datum e \<in> set ds
       then e\<lparr>transition := Some \<lparr>to_transform = (x (L (datum e)), y (L (datum e))), to_opacity = 1,
                                  then_remove = False\<rparr>\<rparr>
       else e\<lparr>transition := Some \<lparr>to_transform = (x (L d), y (L d)), to_opacity = 0,
                                  then_remove = True\<rparr>\<rparr>)"
    if "e \<in> set ?old" for e
    using matching_inj [of ds L e, OF inj [OF _ that]] by (simp add: rejoin_element_def)
  have old_data: "datum ` set ?old = datum ` set (nodes_dom st)"
    unfolding set_map image_image reglyph_same ..
  have "entering L ?old ds = filter (\<lambda>q. q \<notin> datum ` set ?old) ds"
    by (rule entering_inj) (rule inj)
  then have e: "entering L ?old ds = filter (\<lambda>q. q \<notin> datum ` set (nodes_dom st)) ds"
    unfolding old_data .
  have r: "map (rejoin_element d L ds) ?old =
      map (\<lambda>e. if datum e \<in> set ds
            then e\<lparr>transition := Some \<lparr>to_transform = (x (L (datum e)), y (L (datum e))), to_opacity = 1,
                                       then_remove = False\<rparr>\<rparr>
            else e\<lparr>transition := Some \<lparr>to_transform = (x (L d), y (L d)), to_opacity = 0,
                                       then_remove = True\<rparr>\<rparr>) ?old"
    by (rule map_cong [OF refl]) (rule m)
  show ?thesis
    unfolding c update_idle [OF ids norm]
    using rt e r by (simp add: L_def ds_def o_def)
qed

lemma click_heap:
  assumes st: "steady w t st" and dv: "node_at t d \<noteq> None"
  defines "h \<equiv> (heap st)(d := toggle (heap st d))"
  shows "heap (click d st) p =
     (if visible t h p
      then (place (h p) (rank t h p))\<lparr>x0 := Some (int (depth (h p)) * indentation),
                                      y0 := Some (rank t h p * row_height)\<rparr>
      else h p)"
  unfolding click_steady [OF st dv] h_def [symmetric]
  by (simp add: foldl_stash set_descendants layout_eq place_def)

lemma click_same:
  assumes st: "steady w t st" and dv: "node_at t d \<noteq> None"
  shows "data (heap (click d st) p) = data (heap st p)"
    and "depth (heap (click d st) p) = depth (heap st p)"
    and "node_id (heap (click d st) p) = node_id (heap st p)"
    and "children (heap (click d st) p) = children (if p = d then toggle (heap st d) else heap st p)"
    and "children' (heap (click d st) p) = children' (if p = d then toggle (heap st d) else heap st p)"
    and "root (click d st) = t" and "last_id (click d st) = last_id st"
    and "tooltip_key_str (click d st) = tooltip_key_str w"
proof -
  show "data (heap (click d st) p) = data (heap st p)"
    "depth (heap (click d st) p) = depth (heap st p)"
    "node_id (heap (click d st) p) = node_id (heap st p)"
    "children (heap (click d st) p) = children (if p = d then toggle (heap st d) else heap st p)"
    "children' (heap (click d st) p) = children' (if p = d then toggle (heap st d) else heap st p)"
    unfolding click_heap [OF st dv] by (simp_all add: place_def toggle_same)
  show "root (click d st) = t" "last_id (click d st) = last_id st"
    "tooltip_key_str (click d st) = tooltip_key_str w"
    unfolding click_steady [OF st dv] using steadyD(1,2) [OF st] by simp_all
qed

lemma click_visible:
  assumes st: "steady w t st" and dv: "node_at t d \<noteq> None"
  shows "visible t (heap (click d st)) p = visible t ((heap st)(d := toggle (heap st d))) p"
  by (rule visible_cong) (simp add: click_same [OF st dv])

lemma finish_None [simp]: "transition e = None \<Longrightarrow> finish e = e"
  by (simp add: finish_def)

lemma click_settled:
  assumes st: "steady w t st" and dv: "node_at t d \<noteq> None"
  defines "h \<equiv> (heap st)(d := toggle (heap st d))"
  defines "L \<equiv> layout t h"
  shows "nodes_dom (settle (click d st)) =
     map (\<lambda>e. (reglyph d (h d) e)\<lparr>transform := (x (L (datum e)), y (L (datum e))), opacity := 1,
                                    transition := None\<rparr>)
         (filter (\<lambda>e. visible t h (datum e)) (nodes_dom st))
     @ map (\<lambda>q. (enter_element (tooltip_key_str w) d L L q)\<lparr>transform := (x (L q), y (L q)),
                    opacity := 1, transition := None\<rparr>)
         (filter (\<lambda>q. q \<notin> datum ` set (nodes_dom st)) (descendants t h))"
  unfolding settle_nodes click_steady [OF st dv] h_def [symmetric] L_def [symmetric]
  using steadyD(2) [OF st]
  by (simp add: filter_map o_def removing_def finish_def enter_element_def set_descendants
      cong: if_cong)

subsection \<open>Clicks keep the state steady\<close>

lemma steady_click:
  assumes st: "steady w t st" and dv: "node_at t d \<noteq> None" and slot: "has_slot (heap st d)"
  shows "steady w t (settle (click d st))"
proof -
  define h where "h = (heap st)(d := toggle (heap st d))"
  define L where "L = layout t h"
  let ?st' = "settle (click d st)"
  note same = click_same [OF st dv]
  have vis: "visible t (heap (click d st)) p = visible t h p" for p
    unfolding h_def by (rule click_visible [OF st dv])
  have Lx: "x (heap (click d st) p) = x (L p)" "y (heap (click d st) p) = y (L p)" for p
    unfolding click_heap [OF st dv] L_def h_def layout_eq by (simp_all add: place_def)
  have slot': "has_slot (heap (click d st) p) = has_slot (heap st p)" for p
    using slot by (simp add: has_slot_def [of "heap (click d st) p"] same)
      (simp add: has_slot_def toggle_def)
  have dom: "nodes_dom ?st' =
     map (\<lambda>e. (reglyph d (h d) e)\<lparr>transform := (x (L (datum e)), y (L (datum e))), opacity := 1,
                                    transition := None\<rparr>)
         (filter (\<lambda>e. visible t h (datum e)) (nodes_dom st))
     @ map (\<lambda>q. (enter_element (tooltip_key_str w) d L L q)\<lparr>transform := (x (L q), y (L q)),
                    opacity := 1, transition := None\<rparr>)
         (filter (\<lambda>q. q \<notin> datum ` set (nodes_dom st)) (descendants t h))"
    unfolding h_def L_def by (rule click_settled [OF st dv])
  have Lslot: "has_slot (L p) = has_slot (heap st p)" for p
    using slot' [of p] unfolding click_heap [OF st dv] L_def h_def layout_eq
    by (simp add: has_slot_def place_def split: if_splits)
  show ?thesis
    unfolding steady_def
  proof (intro conjI allI impI ballI)
    show "root ?st' = t" using same by simp
    show "tooltip_key_str ?st' = tooltip_key_str w" using same by simp
    show "keys_ok (heap ?st', last_id ?st')"
      using steadyD(3) [OF st] keys_ok_cong [of "heap (click d st)" "heap st" "last_id st"]
      by (simp add: same)
  next
    fix p assume "node_at t p \<noteq> None"
    then show "truthy (node_id (heap ?st' p))" "node_at t p = Some (data (heap ?st' p))"
      "depth (heap ?st' p) = length p"
      using steadyD(4,5,6) [OF st, of p] by (simp_all add: same)
  next
    fix p assume "json_children (data (heap ?st' p)) = Some []"
    then show "has_slot (heap ?st' p)"
      using steadyD(7) [OF st, of p] by (simp add: slot' same)
  next
    fix p show "children (heap ?st' p) = Absent \<or> children' (heap ?st' p) = Absent"
      using steadyD(8) [OF st, of p] toggle_one_slot [of "heap st d"] by (simp add: same)
  next
    have a: "datum ` set (map (\<lambda>e. (reglyph d (h d) e)\<lparr>transform := (x (L (datum e)), y (L (datum e))),
          opacity := 1, transition := None\<rparr>) (filter (\<lambda>e. visible t h (datum e)) (nodes_dom st)))
        = {p \<in> datum ` set (nodes_dom st). visible t h p}"
      unfolding set_map image_image by auto
    have b: "datum ` set (map (\<lambda>q. (enter_element (tooltip_key_str w) d L L q)\<lparr>transform := (x (L q), y (L q)),
          opacity := 1, transition := None\<rparr>)
          (filter (\<lambda>q. q \<notin> datum ` set (nodes_dom st)) (descendants t h)))
        = {q. visible t h q \<and> q \<notin> datum ` set (nodes_dom st)}"
      unfolding set_map image_image by (auto simp: enter_element_def set_descendants)
    show "datum ` set (nodes_dom ?st') = {p. visible t (heap ?st') p}"
      unfolding dom set_append image_Un a b by (auto simp: vis)
  next
    fix e assume e: "e \<in> set (nodes_dom ?st')"
    then consider e0 where "e0 \<in> set (nodes_dom st)" "visible t h (datum e0)"
        "e = (reglyph d (h d) e0)\<lparr>transform := (x (L (datum e0)), y (L (datum e0))), opacity := 1,
                                    transition := None\<rparr>"
      | q where "e = (enter_element (tooltip_key_str w) d L L q)\<lparr>transform := (x (L q), y (L q)),
                    opacity := 1, transition := None\<rparr>"
      unfolding dom by auto
    then have props: "transition e = None \<and> opacity e = 1
        \<and> transform e = (x (heap ?st' (datum e)), y (heap ?st' (datum e)))
        \<and> on_click e = has_slot (heap ?st' (datum e))
        \<and> listeners e = hover_listeners (tooltip_key_str w)"
    proof cases
      case 1
      then show ?thesis
        using steadyD(13,14) [OF st, of e0] by (simp add: Lx slot')
    next
      case 2
      then show ?thesis
        by (simp add: Lx slot' enter_element_def Lslot)
    qed
    show "transition e = None" "opacity e = 1"
      "transform e = (x (heap ?st' (datum e)), y (heap ?st' (datum e)))"
      "on_click e = has_slot (heap ?st' (datum e))"
      "listeners e = hover_listeners (tooltip_key_str w)"
      using props by blast+
  next
    fix p assume "visible t (heap ?st') p"
    then have "visible t h p" by (simp add: vis)
    then show "x0 (heap ?st' p) = x (heap ?st' p)" "y0 (heap ?st' p) = y (heap ?st' p)"
      unfolding settle_same click_heap [OF st dv] h_def by (simp_all add: place_def)
  qed
qed

lemma clickable_valid:
  assumes st: "steady w t st" and c: "list_ex (\<lambda>e. datum e = d \<and> on_click e) (nodes_dom st)"
  shows "node_at t d \<noteq> None" "has_slot (heap st d)" "visible t (heap st) d"
proof -
  obtain e where e: "e \<in> set (nodes_dom st)" "datum e = d" "on_click e"
    using c by (auto simp: list_ex_iff)
  show "node_at t d \<noteq> None" "visible t (heap st) d"
    using steady_drawn_valid [OF st e(1)] e(2) by simp_all
  show "has_slot (heap st d)"
    using steadyD(13) [OF st e(1)] e(2,3) by simp
qed

lemma steady_user_click: "steady w t st \<Longrightarrow> steady w t (user_click d st)"
  using steady_click [of w t st d] clickable_valid(1,2) [of w t st d]
  by (simp add: user_click_def)

subsection \<open>A pass in any state\<close>

lemma bind_keys_open:
  "(children (fst (bind_keys ds a) r) = Array) = (children (fst a r) = Array)"
  by (simp add: bind_keys_same)

text \<open>A pass, with the store \<open>s2\<close> and the counter \<open>c2\<close> that the key function leaves.\<close>

lemma update_unfold:
  assumes k: "bind_keys (descendants (root st) (heap st))
                (bind_keys (map datum (nodes_dom st)) (layout (root st) (heap st), last_id st)) = (s2, c2)"
  defines "ds \<equiv> descendants (root st) (heap st)"
  defines "new \<equiv> entering s2 (nodes_dom st) ds"
  defines "s3 \<equiv> foldl (\<lambda>s d. normalize_empty d s) s2 new"
  shows "update src st =
     st\<lparr>heap := foldl (\<lambda>s d. stash d s) s3 ds, last_id := c2,
        svg_height := Some (max (min_height st) (int (length ds) * row_height + margin_top)),
        nodes_dom := map (rejoin_element src s3 ds) (nodes_dom st)
                     @ map (enter_element (tooltip_key_str st) src s2 s3) new,
        links_dom := join_links (s3 src) s3 (links_dom st) (links (root st) (heap st))\<rparr>"
proof -
  have s2: "s2 = fst (bind_keys (descendants (root st) (heap st))
                (bind_keys (map datum (nodes_dom st)) (layout (root st) (heap st), last_id st)))"
    using k by simp
  have op: "\<forall>r. (children (s3 r) = Array) = (children (heap st r) = Array)"
    unfolding s3_def s2 by (simp add: normalize_empty_open bind_keys_same layout_same)
  have d: "descendants (root st) s3 = descendants (root st) (heap st)"
    using op by (rule descendants_cong)
  have l: "links (root st) s3 = links (root st) (heap st)"
    by (simp add: links_def d)
  show ?thesis
    using k d l unfolding ds_def new_def s3_def by (simp add: update_def Let_def)
qed

lemma update_same:
  "data (heap (update src st) p) = data (heap st p)"
  "depth (heap (update src st) p) = depth (heap st p)"
  "children' (heap (update src st) p) = children' (heap st p)"
  "root (update src st) = root st"
  "tooltip_key_str (update src st) = tooltip_key_str st"
  "min_height (update src st) = min_height st"
proof -
  obtain s2 c2 where k: "bind_keys (descendants (root st) (heap st))
      (bind_keys (map datum (nodes_dom st)) (layout (root st) (heap st), last_id st)) = (s2, c2)"
    by (cases "bind_keys (descendants (root st) (heap st))
      (bind_keys (map datum (nodes_dom st)) (layout (root st) (heap st), last_id st))")
  have s2: "s2 = fst (bind_keys (descendants (root st) (heap st))
                (bind_keys (map datum (nodes_dom st)) (layout (root st) (heap st), last_id st)))"
    using k by simp
  show "data (heap (update src st) p) = data (heap st p)"
    "depth (heap (update src st) p) = depth (heap st p)"
    "children' (heap (update src st) p) = children' (heap st p)"
    "root (update src st) = root st"
    "tooltip_key_str (update src st) = tooltip_key_str st"
    "min_height (update src st) = min_height st"
    unfolding update_unfold [OF k]
    by (simp_all add: foldl_stash foldl_normalize_empty s2 bind_keys_same layout_same)
qed

text \<open>No pass changes a Node that has \<open>children\<close> or \<open>_children\<close>, and none unsets one.\<close>

lemma update_slot:
  "has_slot (heap st p) \<Longrightarrow> children (heap (update src st) p) = children (heap st p)"
  "children (heap (update src st) p) = children (heap st p) \<or>
   (children (heap (update src st) p) = Null \<and> \<not> has_slot (heap st p)
    \<and> json_children (data (heap st p)) = Some [])"
proof -
  obtain s2 c2 where k: "bind_keys (descendants (root st) (heap st))
      (bind_keys (map datum (nodes_dom st)) (layout (root st) (heap st), last_id st)) = (s2, c2)"
    by (cases "bind_keys (descendants (root st) (heap st))
      (bind_keys (map datum (nodes_dom st)) (layout (root st) (heap st), last_id st))")
  have s2: "s2 = fst (bind_keys (descendants (root st) (heap st))
                (bind_keys (map datum (nodes_dom st)) (layout (root st) (heap st), last_id st)))"
    using k by simp
  have hs: "has_slot (s2 p) = has_slot (heap st p)"
    by (simp add: has_slot_def s2 bind_keys_same layout_same)
  show "has_slot (heap st p) \<Longrightarrow> children (heap (update src st) p) = children (heap st p)"
    unfolding update_unfold [OF k]
    by (simp add: foldl_stash foldl_normalize_empty hs) (simp add: s2 bind_keys_same layout_same)
  show "children (heap (update src st) p) = children (heap st p) \<or>
   (children (heap (update src st) p) = Null \<and> \<not> has_slot (heap st p)
    \<and> json_children (data (heap st p)) = Some [])"
    unfolding update_unfold [OF k]
    by (simp add: foldl_stash foldl_normalize_empty hs) (simp add: s2 bind_keys_same layout_same)
qed

subsection \<open>The hierarchy just built\<close>

lemma hierarchy_valid:
  "node_at t p = Some d \<Longrightarrow> hierarchy t p =
     \<lparr>data = d, depth = length p, children = (if kids d = [] then Absent else Array),
      children' = Absent, node_id = None, x = None, y = None, row = None, x0 = None, y0 = None\<rparr>"
  by (simp add: hierarchy_def)

lemma hierarchy_invalid: "node_at t p = None \<Longrightarrow> hierarchy t p = no_node"
  by (simp add: hierarchy_def)

lemma hierarchy_same:
  "children' (hierarchy t p) = Absent" "node_id (hierarchy t p) = None"
  "node_at t p = None \<Longrightarrow> json_children (data (hierarchy t p)) = None"
  "node_at t p = None \<Longrightarrow> children (hierarchy t p) = Absent"
  by (simp_all add: hierarchy_def no_node_def split: option.splits)

lemma start_same:
  "root (start w t) = t" "last_id (start w t) = 0" "nodes_dom (start w t) = []"
  "links_dom (start w t) = []" "tooltip_key_str (start w t) = tooltip_key_str w"
  "min_height (start w t) = min_height w"
  "data (heap (start w t) p) = data (hierarchy t p)"
  "depth (heap (start w t) p) = depth (hierarchy t p)"
  "children (heap (start w t) p) = children (hierarchy t p)"
  "children' (heap (start w t) p) = Absent"
  "node_id (heap (start w t) p) = None"
  "x0 (heap (start w t) []) = Some 0" "y0 (heap (start w t) []) = Some 0"
  by (simp_all add: start_def hierarchy_same)

lemma kids_nonempty: "node_at d q \<noteq> None \<Longrightarrow> q \<noteq> [] \<Longrightarrow> kids d \<noteq> []"
  by (cases q) (auto split: if_splits)

text \<open>In the hierarchy just built every Node is visible.\<close>

lemma visible_hierarchy:
  "visible t (heap (start w t)) p = (node_at t p \<noteq> None)"
proof (cases "node_at t p")
  case None
  then show ?thesis by (simp add: visible_def)
next
  case (Some d)
  have "children (heap (start w t) (take k p)) = Array" if "k < length p" for k
  proof -
    have "node_at t (take k p @ drop k p) = Some d" using Some by simp
    then obtain d' where d': "node_at t (take k p) = Some d'" and rest: "node_at d' (drop k p) = Some d"
      unfolding node_at_append by (auto split: option.splits)
    have "kids d' \<noteq> []"
      using kids_nonempty [of d' "drop k p"] rest that by simp
    then show ?thesis using d' by (simp add: start_same hierarchy_valid)
  qed
  then show ?thesis using Some by (simp add: visible_def list_all_iff)
qed

lemma keys_ok_start: "keys_ok (layout t (heap (start w t)), 0)"
  by (simp add: keys_ok_def layout_same start_same truthy_def)

subsection \<open>The first pass\<close>

lemma entering_Nil [simp]: "entering s [] ds = ds"
  by (simp add: entering_def)

lemma set_descendants_start: "set (descendants t (heap (start w t))) = {p. node_at t p \<noteq> None}"
  by (simp add: set_descendants visible_hierarchy)

text \<open>The first pass.\<close>

lemma first_pass:
  obtains s2 c2 where
    "keys_ok (s2, c2)"
    "\<And>p. node_at t p \<noteq> None \<Longrightarrow> truthy (node_id (s2 p))"
    "\<And>p. data (s2 p) = data (hierarchy t p)" "\<And>p. depth (s2 p) = depth (hierarchy t p)"
    "\<And>p. children (s2 p) = children (hierarchy t p)" "\<And>p. children' (s2 p) = Absent"
    "\<And>p. x (s2 p) = x (layout t (heap (start w t)) p)" "\<And>p. y (s2 p) = y (layout t (heap (start w t)) p)"
    "\<And>p. row (s2 p) = row (layout t (heap (start w t)) p)"
    "\<And>p. x0 (s2 p) = x0 (heap (start w t) p)" "\<And>p. y0 (s2 p) = y0 (heap (start w t) p)"
    "update [] (start w t) =
       (start w t)\<lparr>heap := foldl (\<lambda>s d. stash d s)
            (foldl (\<lambda>s d. normalize_empty d s) s2 (descendants t (heap (start w t)))) (descendants t (heap (start w t))),
          last_id := c2,
          svg_height := Some (max (min_height w)
             (int (length (descendants t (heap (start w t)))) * row_height + margin_top)),
          nodes_dom := map (enter_element (tooltip_key_str w) [] s2
               (foldl (\<lambda>s d. normalize_empty d s) s2 (descendants t (heap (start w t)))))
             (descendants t (heap (start w t))),
          links_dom := join_links (foldl (\<lambda>s d. normalize_empty d s) s2 (descendants t (heap (start w t))) [])
             (foldl (\<lambda>s d. normalize_empty d s) s2 (descendants t (heap (start w t)))) []
             (links t (heap (start w t)))\<rparr>"
proof -
  let ?st = "start w t"
  let ?ds = "descendants t (heap ?st)"
  obtain s2 c2 where k0: "bind_keys ?ds (layout t (heap ?st), 0) = (s2, c2)"
    by (cases "bind_keys ?ds (layout t (heap ?st), 0)")
  then have k: "bind_keys (descendants (root ?st) (heap ?st))
      (bind_keys (map datum (nodes_dom ?st)) (layout (root ?st) (heap ?st), last_id ?st)) = (s2, c2)"
    by (simp add: start_same)
  have s2: "s2 = fst (bind_keys ?ds (layout t (heap ?st), 0))" and c2: "c2 = snd (bind_keys ?ds (layout t (heap ?st), 0))"
    using k0 by simp_all
  have ok: "keys_ok (s2, c2)"
    using bind_keys_ok [OF keys_ok_start, of ?ds t w] k0 by simp
  have tr: "truthy (node_id (s2 p))" if "node_at t p \<noteq> None" for p
    unfolding s2 by (rule bind_keys_truthy) (use that in \<open>simp add: set_descendants_start\<close>)
  show ?thesis
  proof (rule that [of s2 c2])
    show "keys_ok (s2, c2)" by (rule ok)
    show "\<And>p. node_at t p \<noteq> None \<Longrightarrow> truthy (node_id (s2 p))" by (rule tr)
    show "\<And>p. data (s2 p) = data (hierarchy t p)" "\<And>p. depth (s2 p) = depth (hierarchy t p)"
      "\<And>p. children (s2 p) = children (hierarchy t p)" "\<And>p. children' (s2 p) = Absent"
      "\<And>p. x (s2 p) = x (layout t (heap (start w t)) p)" "\<And>p. y (s2 p) = y (layout t (heap (start w t)) p)"
      "\<And>p. row (s2 p) = row (layout t (heap (start w t)) p)"
      "\<And>p. x0 (s2 p) = x0 (heap (start w t) p)" "\<And>p. y0 (s2 p) = y0 (heap (start w t) p)"
      unfolding s2 by (simp_all add: bind_keys_same layout_same start_same)
    show "update [] (start w t) =
       (start w t)\<lparr>heap := foldl (\<lambda>s d. stash d s)
            (foldl (\<lambda>s d. normalize_empty d s) s2 (descendants t (heap (start w t)))) (descendants t (heap (start w t))),
          last_id := c2,
          svg_height := Some (max (min_height w)
             (int (length (descendants t (heap (start w t)))) * row_height + margin_top)),
          nodes_dom := map (enter_element (tooltip_key_str w) [] s2
               (foldl (\<lambda>s d. normalize_empty d s) s2 (descendants t (heap (start w t)))))
             (descendants t (heap (start w t))),
          links_dom := join_links (foldl (\<lambda>s d. normalize_empty d s) s2 (descendants t (heap (start w t))) [])
             (foldl (\<lambda>s d. normalize_empty d s) s2 (descendants t (heap (start w t)))) []
             (links t (heap (start w t)))\<rparr>"
      unfolding update_unfold [OF k] by (simp add: start_same)
  qed
qed

lemma steady_first: "steady w t (settle (update [] (start w t)))"
proof -
  let ?h0 = "heap (start w t)"
  let ?ds = "descendants t ?h0"
  obtain s2 c2 where ok: "keys_ok (s2, c2)"
    and tr: "\<And>p. node_at t p \<noteq> None \<Longrightarrow> truthy (node_id (s2 p))"
    and f: "\<And>p. data (s2 p) = data (hierarchy t p)" "\<And>p. depth (s2 p) = depth (hierarchy t p)"
      "\<And>p. children (s2 p) = children (hierarchy t p)" "\<And>p. children' (s2 p) = Absent"
    and u: "update [] (start w t) =
       (start w t)\<lparr>heap := foldl (\<lambda>s d. stash d s)
            (foldl (\<lambda>s d. normalize_empty d s) s2 ?ds) ?ds,
          last_id := c2,
          svg_height := Some (max (min_height w) (int (length ?ds) * row_height + margin_top)),
          nodes_dom := map (enter_element (tooltip_key_str w) [] s2
               (foldl (\<lambda>s d. normalize_empty d s) s2 ?ds)) ?ds,
          links_dom := join_links (foldl (\<lambda>s d. normalize_empty d s) s2 ?ds [])
             (foldl (\<lambda>s d. normalize_empty d s) s2 ?ds) [] (links t ?h0)\<rparr>"
    by (rule first_pass [of t w]) blast
  define s3 where "s3 = foldl (\<lambda>s d. normalize_empty d s) s2 ?ds"
  let ?st' = "settle (update [] (start w t))"
  let ?u = "update [] (start w t)"
  have heap': "heap ?u = foldl (\<lambda>s d. stash d s) s3 ?ds"
    unfolding u s3_def by simp
  have dom: "nodes_dom ?st' =
      map (\<lambda>q. (enter_element (tooltip_key_str w) [] s2 s3 q)\<lparr>transform := (x (s3 q), y (s3 q)),
             opacity := 1, transition := None\<rparr>) ?ds"
    unfolding settle_nodes u s3_def
    by (simp add: filter_map o_def removing_def finish_def enter_element_def)
  have s3: "data (s3 p) = data (hierarchy t p)" "depth (s3 p) = depth (hierarchy t p)"
    "children' (s3 p) = Absent" "node_id (s3 p) = node_id (s2 p)"
    "children (s3 p) = (if node_at t p \<noteq> None \<and> json_children (data (hierarchy t p)) = Some []
        \<and> children (hierarchy t p) = Absent then Null else children (hierarchy t p))" for p
    unfolding s3_def foldl_normalize_empty
    by (simp_all add: f has_slot_def set_descendants_start)
  have h: "data (heap ?u p) = data (s3 p)" "depth (heap ?u p) = depth (s3 p)"
    "children' (heap ?u p) = children' (s3 p)" "node_id (heap ?u p) = node_id (s3 p)"
    "children (heap ?u p) = children (s3 p)"
    "x (heap ?u p) = x (s3 p)" "y (heap ?u p) = y (s3 p)" for p
    unfolding heap' foldl_stash by simp_all
  have vis: "visible t (heap ?u) p = (node_at t p \<noteq> None)" for p
  proof -
    have "visible t (heap ?u) p = visible t ?h0 p"
      by (rule visible_cong) (auto simp: h s3 start_same)
    then show ?thesis by (simp add: visible_hierarchy)
  qed
  show ?thesis
    unfolding steady_def
  proof (intro conjI allI impI ballI)
    show "root ?st' = t" unfolding u by (simp add: start_same)
    show "tooltip_key_str ?st' = tooltip_key_str w" unfolding u by (simp add: start_same)
    have "last_id ?st' = c2" unfolding u by simp
    then show "keys_ok (heap ?st', last_id ?st')"
      using ok keys_ok_cong [of "heap ?st'" s2 c2] by (simp add: h s3)
  next
    fix p assume v: "node_at t p \<noteq> None"
    then obtain d where d: "node_at t p = Some d" by blast
    show "truthy (node_id (heap ?st' p))" using tr [OF v] by (simp add: h s3)
    show "node_at t p = Some (data (heap ?st' p))" using d by (simp add: h s3 hierarchy_valid)
    show "depth (heap ?st' p) = length p" using d by (simp add: h s3 hierarchy_valid)
  next
    fix p assume e: "json_children (data (heap ?st' p)) = Some []"
    then have "node_at t p \<noteq> None"
      using hierarchy_same(3) [of t p] by (auto simp: h s3)
    then show "has_slot (heap ?st' p)"
      using e by (simp add: has_slot_def h s3)
  next
    fix p show "children (heap ?st' p) = Absent \<or> children' (heap ?st' p) = Absent"
      by (simp add: h s3)
  next
    show "datum ` set (nodes_dom ?st') = {p. visible t (heap ?st') p}"
      unfolding dom set_map image_image
      by (simp add: enter_element_def vis set_descendants_start)
  next
    fix e assume "e \<in> set (nodes_dom ?st')"
    then obtain q where e: "e = (enter_element (tooltip_key_str w) [] s2 s3 q)\<lparr>transform := (x (s3 q), y (s3 q)),
             opacity := 1, transition := None\<rparr>"
      unfolding dom by auto
    show "transition e = None" "opacity e = 1"
      "transform e = (x (heap ?st' (datum e)), y (heap ?st' (datum e)))"
      "on_click e = has_slot (heap ?st' (datum e))"
      "listeners e = hover_listeners (tooltip_key_str w)"
      unfolding e by (simp_all add: enter_element_def h has_slot_def)
  next
    fix p assume "visible t (heap ?st') p"
    then have "p \<in> set ?ds" by (simp add: vis set_descendants_start)
    then show "x0 (heap ?st' p) = x (heap ?st' p)" "y0 (heap ?st' p) = y (heap ?st' p)"
      unfolding settle_same heap' foldl_stash by simp_all
  qed
qed

lemma steady_session: "steady w t (session w t clicks)"
proof -
  have "steady w t (foldl (\<lambda>st d. user_click d st) st clicks)" if "steady w t st" for st
    using that by (induction clicks arbitrary: st) (simp_all add: steady_user_click)
  then show ?thesis unfolding session_def using steady_first by blast
qed

section \<open>The claims\<close>

subsection \<open>The layout pass\<close>

lemma open_below_append:
  "open_below s r (p @ q) = (open_below s r p \<and> open_below s (r @ p) q)"
  by (induction p arbitrary: r) auto

lemma visible_prefix: "visible t s (p @ q) \<Longrightarrow> visible t s p"
  by (auto simp: visible_open open_below_append node_at_append split: option.splits)

lemma length_filter_less:
  "(\<And>u. P u \<Longrightarrow> Q u) \<Longrightarrow> a \<in> set qs \<Longrightarrow> Q a \<Longrightarrow> \<not> P a \<Longrightarrow>
   length (filter P qs) < length (filter Q qs)"
proof (induction qs)
  case Nil
  then show ?case by simp
next
  case (Cons b qs)
  have le: "length (filter P qs) \<le> length (filter Q qs)"
    using Cons.prems(1)
    by (induction qs) (auto simp: le_SucI)
  show ?case
  proof (cases "a = b")
    case True
    then show ?thesis using Cons.prems le by simp
  next
    case False
    then have "length (filter P qs) < length (filter Q qs)"
      using Cons by simp
    then show ?thesis using Cons.prems(1) [of b] by auto
  qed
qed

lemma rank_mono:
  assumes "visible t s p" "visible t s q" "p < q"
  shows "rank t s p < rank t s q"
proof -
  let ?L = "preorder t [] s"
  have p: "p \<in> set ?L" and q: "q \<in> set ?L" using assms by (simp_all add: set_preorder)
  have "length (filter (\<lambda>u. u < p) ?L) < length (filter (\<lambda>u. u < q) ?L)"
    by (rule length_filter_less [of _ _ p]) (use assms(3) p in auto)
  then show ?thesis
    using rank_sorted [OF preorder_sorted(1) p] rank_sorted [OF preorder_sorted(1) q]
    by (simp add: rank_def)
qed

lemma rows_along:
  "distinct qs \<Longrightarrow> map (\<lambda>p. int (length (takeWhile (\<lambda>q. q \<noteq> p) qs))) qs = map int [0..<length qs]"
proof (induction qs rule: rev_induct)
  case Nil
  then show ?case by simp
next
  case (snoc a qs)
  have A: "map (\<lambda>p. int (length (takeWhile (\<lambda>q. q \<noteq> p) (qs @ [a])))) qs
      = map (\<lambda>p. int (length (takeWhile (\<lambda>q. q \<noteq> p) qs))) qs"
  proof (rule map_cong [OF refl])
    fix p assume "p \<in> set qs"
    then show "int (length (takeWhile (\<lambda>q. q \<noteq> p) (qs @ [a]))) = int (length (takeWhile (\<lambda>q. q \<noteq> p) qs))"
      using takeWhile_append1 [of p qs "\<lambda>q. q \<noteq> p" "[a]"] by simp
  qed
  have B: "takeWhile (\<lambda>q. q \<noteq> a) (qs @ [a]) = qs"
    using snoc.prems by (subst takeWhile_append2) auto
  have IH: "map (\<lambda>p. int (length (takeWhile (\<lambda>q. q \<noteq> p) qs))) qs = map int [0..<length qs]"
    using snoc by simp
  show ?case unfolding map_append A IH by (simp add: B)
qed

lemma length_takeWhile_mem:
  "a \<in> set qs \<Longrightarrow> \<not> P a \<Longrightarrow> length (takeWhile P qs) < length qs"
  by (induction qs) auto

text \<open>
  C1. Whatever the document \<open>t\<close> and whatever store \<open>s\<close> the toggles have left, the layout
  pass (the traversal at the start of \<open>update\<close>) calls its callback on exactly the Nodes
  of the list \<open>preorder t [] s\<close>. These are exactly the visible Nodes: the Nodes that exist
  and whose proper ancestors all have the array of their children under \<open>children\<close>.
  The pass assigns to every visible Node a row, which is its position in that list, the
  horizontal position \<open>depth * indentation\<close> and the vertical position
  \<open>row * row_height\<close>, and changes nothing else of it. Every other Node, so every Node
  inside a collapsed subtree, keeps the \<open>row\<close>, \<open>x\<close> and \<open>y\<close> it had (none, if it never had
  any): the pass assigns nothing to it.
\<close>

theorem layout_pass_visits_visible:
  "eachBefore layout_cb t [] (s, - 1) = foldl (\<lambda>a n. layout_cb n a) (s, - 1) (preorder t [] s)
   \<and> (\<forall>p. (p \<in> set (preorder t [] s)) =
          (node_at t p \<noteq> None \<and> (\<forall>k<length p. children (s (take k p)) = Array)))
   \<and> (\<forall>p. visible t s p = (p \<in> set (preorder t [] s)))
   \<and> (\<forall>p. visible t s p \<longrightarrow>
          row (layout t s p) = Some (rank t s p)
          \<and> x (layout t s p) = Some (int (depth (s p)) * indentation)
          \<and> y (layout t s p) = Some (rank t s p * row_height)
          \<and> 0 \<le> rank t s p \<and> rank t s p < int (length (preorder t [] s))
          \<and> layout t s p = (s p)\<lparr>x := Some (int (depth (s p)) * indentation),
                                  y := Some (rank t s p * row_height),
                                  row := Some (rank t s p)\<rparr>)
   \<and> (\<forall>p. \<not> visible t s p \<longrightarrow>
          row (layout t s p) = row (s p) \<and> x (layout t s p) = x (s p)
          \<and> y (layout t s p) = y (s p) \<and> layout t s p = s p)"
proof (intro conjI allI impI)
  show "eachBefore layout_cb t [] (s, - 1) = foldl (\<lambda>a n. layout_cb n a) (s, - 1) (preorder t [] s)"
    using eachBefore_foldl(1) [of layout_cb t "[]" "(s, - 1)", OF layout_cb_keeps] by simp
  show "(p \<in> set (preorder t [] s)) =
          (node_at t p \<noteq> None \<and> (\<forall>k<length p. children (s (take k p)) = Array))" for p
    by (auto simp: set_preorder visible_def list_all_iff)
  show "visible t s p = (p \<in> set (preorder t [] s))" for p
    by (simp add: set_preorder)
next
  fix p assume v: "visible t s p"
  then have l: "layout t s p = place (s p) (rank t s p)" by (simp add: layout_eq)
  show "row (layout t s p) = Some (rank t s p)"
    "x (layout t s p) = Some (int (depth (s p)) * indentation)"
    "y (layout t s p) = Some (rank t s p * row_height)"
    "layout t s p = (s p)\<lparr>x := Some (int (depth (s p)) * indentation),
                                  y := Some (rank t s p * row_height),
                                  row := Some (rank t s p)\<rparr>"
    unfolding l by (simp_all add: place_def)
  show "0 \<le> rank t s p" by (simp add: rank_def)
  have "p \<in> set (preorder t [] s)" using v by (simp add: set_preorder)
  then have "length (takeWhile (\<lambda>q. q \<noteq> p) (preorder t [] s)) < length (preorder t [] s)"
    by (rule length_takeWhile_mem [of p]) simp
  then show "rank t s p < int (length (preorder t [] s))" by (simp add: rank_def)
next
  fix p assume v: "\<not> visible t s p"
  then have l: "layout t s p = s p" by (simp add: layout_eq)
  show "row (layout t s p) = row (s p)" "x (layout t s p) = x (s p)"
    "y (layout t s p) = y (s p)" "layout t s p = s p"
    unfolding l by simp_all
qed

text \<open>On the document \<open>two_folders\<close> with the folder \<open>a\<close> collapsed: the pass visits the
  root, \<open>a\<close>, \<open>b\<close> and \<open>d\<close>; \<open>d\<close> gets row 3 and the position (44, 81), and \<open>c\<close>, inside
  the collapsed folder, gets no row and no position.\<close>

theorem layout_pass_visits_visible_witness:
  "preorder two_folders [] ((hierarchy two_folders)([0] := toggle (hierarchy two_folders [0])))
     = [[], [0], [1], [1, 0]]
   \<and> visible two_folders ((hierarchy two_folders)([0] := toggle (hierarchy two_folders [0]))) [1, 0]
   \<and> row (layout two_folders ((hierarchy two_folders)([0] := toggle (hierarchy two_folders [0])))
        [1, 0]) = Some 3
   \<and> x (layout two_folders ((hierarchy two_folders)([0] := toggle (hierarchy two_folders [0])))
        [1, 0]) = Some 44
   \<and> y (layout two_folders ((hierarchy two_folders)([0] := toggle (hierarchy two_folders [0])))
        [1, 0]) = Some 81
   \<and> \<not> visible two_folders ((hierarchy two_folders)([0] := toggle (hierarchy two_folders [0]))) [0, 0]
   \<and> row (layout two_folders ((hierarchy two_folders)([0] := toggle (hierarchy two_folders [0])))
        [0, 0]) = None
   \<and> x (layout two_folders ((hierarchy two_folders)([0] := toggle (hierarchy two_folders [0])))
        [0, 0]) = None
   \<and> y (layout two_folders ((hierarchy two_folders)([0] := toggle (hierarchy two_folders [0])))
        [0, 0]) = None"
proof -
  let ?s = "(hierarchy two_folders)([0] := toggle (hierarchy two_folders [0]))"
  note T = layout_pass_visits_visible [of two_folders ?s]
  have p: "preorder two_folders [] ?s = [[], [0], [1], [1, 0]]" by code_simp
  have v: "visible two_folders ?s [1, 0]" "\<not> visible two_folders ?s [0, 0]" by code_simp+
  have r: "rank two_folders ?s [1, 0] = 3" by code_simp
  have d: "depth (?s [1, 0]) = 2" by code_simp
  have n: "row (?s [0, 0]) = None" "x (?s [0, 0]) = None" "y (?s [0, 0]) = None" by code_simp+
  from T v(1) have a: "row (layout two_folders ?s [1, 0]) = Some (rank two_folders ?s [1, 0])
      \<and> x (layout two_folders ?s [1, 0]) = Some (int (depth (?s [1, 0])) * indentation)
      \<and> y (layout two_folders ?s [1, 0]) = Some (rank two_folders ?s [1, 0] * row_height)"
    by blast
  from T v(2) have b: "row (layout two_folders ?s [0, 0]) = row (?s [0, 0])
      \<and> x (layout two_folders ?s [0, 0]) = x (?s [0, 0])
      \<and> y (layout two_folders ?s [0, 0]) = y (?s [0, 0])"
    by blast
  show ?thesis
    using a b p v r d n by (simp add: indentation_def row_height_def)
qed

subsection \<open>Sessions\<close>

lemma FolderTree_key:
  "tooltip_key_str (FolderTree mh k) = (if is_string k then Some (string_of k) else None)"
  by (cases k) (simp_all add: FolderTree_def)

lemma session_listeners:
  "e \<in> set (nodes_dom (session w t clicks)) \<Longrightarrow> listeners e = hover_listeners (tooltip_key_str w)"
  using steadyD(14) [OF steady_session] .

lemma session_root_drawn: "[] \<in> datum ` set (nodes_dom (session w t clicks))"
  using steadyD(9) [OF steady_session, of w t clicks] by simp

text \<open>The elements and the store that the first pass leaves.\<close>

lemma first_pass_nodes:
  obtains s2 s3 where
    "nodes_dom (update [] (start w t)) =
       map (enter_element (tooltip_key_str w) [] s2 s3) (descendants t (heap (start w t)))"
    "\<And>p. x0 (s2 p) = x0 (heap (start w t) p)" "\<And>p. y0 (s2 p) = y0 (heap (start w t) p)"
    "\<And>p. x (heap (update [] (start w t)) p) = x (s3 p)"
    "\<And>p. y (heap (update [] (start w t)) p) = y (s3 p)"
    "\<And>p. children (heap (update [] (start w t)) p) = children (s3 p)"
    "\<And>p. children' (heap (update [] (start w t)) p) = Absent"
    "\<And>p. children' (s3 p) = Absent"
    "\<And>p. children (s3 p) =
       (if node_at t p \<noteq> None \<and> json_children (data (hierarchy t p)) = Some []
           \<and> children (hierarchy t p) = Absent then Null else children (hierarchy t p))"
proof -
  let ?ds = "descendants t (heap (start w t))"
  obtain s2 c2 where
    f: "\<And>p. data (s2 p) = data (hierarchy t p)"
      "\<And>p. children (s2 p) = children (hierarchy t p)" "\<And>p. children' (s2 p) = Absent"
      "\<And>p. x0 (s2 p) = x0 (heap (start w t) p)" "\<And>p. y0 (s2 p) = y0 (heap (start w t) p)"
    and u: "update [] (start w t) =
       (start w t)\<lparr>heap := foldl (\<lambda>s d. stash d s)
            (foldl (\<lambda>s d. normalize_empty d s) s2 ?ds) ?ds,
          last_id := c2,
          svg_height := Some (max (min_height w) (int (length ?ds) * row_height + margin_top)),
          nodes_dom := map (enter_element (tooltip_key_str w) [] s2
               (foldl (\<lambda>s d. normalize_empty d s) s2 ?ds)) ?ds,
          links_dom := join_links (foldl (\<lambda>s d. normalize_empty d s) s2 ?ds [])
             (foldl (\<lambda>s d. normalize_empty d s) s2 ?ds) [] (links t (heap (start w t)))\<rparr>"
    by (rule first_pass [of t w]) blast
  define s3 where "s3 = foldl (\<lambda>s d. normalize_empty d s) s2 ?ds"
  show ?thesis
  proof (rule that [of s2 s3])
    show "nodes_dom (update [] (start w t)) = map (enter_element (tooltip_key_str w) [] s2 s3) ?ds"
      unfolding u s3_def by simp
    show "\<And>p. x0 (s2 p) = x0 (heap (start w t) p)" "\<And>p. y0 (s2 p) = y0 (heap (start w t) p)"
      by (rule f)+
    show "\<And>p. x (heap (update [] (start w t)) p) = x (s3 p)"
      "\<And>p. y (heap (update [] (start w t)) p) = y (s3 p)"
      "\<And>p. children (heap (update [] (start w t)) p) = children (s3 p)"
      unfolding u s3_def by (simp_all add: foldl_stash)
    show c': "\<And>p. children' (s3 p) = Absent"
      unfolding s3_def foldl_normalize_empty by (simp add: f)
    show "\<And>p. children' (heap (update [] (start w t)) p) = Absent"
      using c' unfolding u s3_def by (simp add: foldl_stash)
    show "\<And>p. children (s3 p) =
       (if node_at t p \<noteq> None \<and> json_children (data (hierarchy t p)) = Some []
           \<and> children (hierarchy t p) = Absent then Null else children (hierarchy t p))"
      unfolding s3_def foldl_normalize_empty
      by (simp add: f has_slot_def set_descendants_start)
  qed
qed

lemma toggle_slots:
  "children (toggle n) = (if children n \<noteq> Absent then Absent
                          else if children' n = Absent then Undefined else children' n)"
  "children' (toggle n) = (if children n \<noteq> Absent then children n else Absent)"
  by (simp_all add: toggle_def)

lemma user_click_heap:
  assumes st: "steady w t st"
  shows "children (heap (user_click d st) p) =
           (if p = d \<and> list_ex (\<lambda>e. datum e = d \<and> on_click e) (nodes_dom st)
            then children' (heap st d) else children (heap st p))"
    and "children' (heap (user_click d st) p) =
           (if p = d \<and> list_ex (\<lambda>e. datum e = d \<and> on_click e) (nodes_dom st)
            then children (heap st d) else children' (heap st p))"
    and "data (heap (user_click d st) p) = data (heap st p)"
    and "depth (heap (user_click d st) p) = depth (heap st p)"
    and "node_id (heap (user_click d st) p) = node_id (heap st p)"
proof -
  have sw: "children (toggle (heap st d)) = children' (heap st d)
      \<and> children' (toggle (heap st d)) = children (heap st d)"
    if "list_ex (\<lambda>e. datum e = d \<and> on_click e) (nodes_dom st)"
    using clickable_valid(2) [OF st that] steadyD(8) [OF st, of d]
    by (auto simp: toggle_slots has_slot_def)
  show "children (heap (user_click d st) p) =
           (if p = d \<and> list_ex (\<lambda>e. datum e = d \<and> on_click e) (nodes_dom st)
            then children' (heap st d) else children (heap st p))"
    "children' (heap (user_click d st) p) =
           (if p = d \<and> list_ex (\<lambda>e. datum e = d \<and> on_click e) (nodes_dom st)
            then children (heap st d) else children' (heap st p))"
    "data (heap (user_click d st) p) = data (heap st p)"
    "depth (heap (user_click d st) p) = depth (heap st p)"
    "node_id (heap (user_click d st) p) = node_id (heap st p)"
    using sw clickable_valid(1) [OF st, of d]
    by (auto simp: user_click_def click_same [OF st])
qed

lemma still_clickable:
  assumes st: "steady w t st" and c: "list_ex (\<lambda>e. datum e = d \<and> on_click e) (nodes_dom st)"
  shows "list_ex (\<lambda>e. datum e = d \<and> on_click e) (nodes_dom (user_click d st))"
proof -
  note dv = clickable_valid [OF st c]
  have st': "steady w t (user_click d st)" using st by (rule steady_user_click)
  have u: "user_click d st = settle (click d st)" using c by (simp add: user_click_def)
  have "visible t (heap (user_click d st)) d"
    unfolding u settle_same click_visible [OF st dv(1)] visible_upd_self by (rule dv(3))
  then have "d \<in> datum ` set (nodes_dom (user_click d st))"
    unfolding steadyD(9) [OF st'] by simp
  then obtain e where e: "e \<in> set (nodes_dom (user_click d st))" "datum e = d"
    by auto
  have "has_slot (heap (user_click d st) d)"
    using dv(2) c by (auto simp: has_slot_def user_click_heap [OF st])
  then have "on_click e" using steadyD(13) [OF st' e(1)] e(2) by simp
  then show ?thesis using e by (auto simp: list_ex_iff)
qed

lemma click_xy:
  assumes st: "steady w t st" and dv: "node_at t d \<noteq> None"
  shows "x (heap (click d st) p) = x (layout t ((heap st)(d := toggle (heap st d))) p)"
    and "y (heap (click d st) p) = y (layout t ((heap st)(d := toggle (heap st d))) p)"
  unfolding click_heap [OF st dv] layout_eq by (simp_all add: place_def)

lemma first_pass_enter:
  "datum ` set (nodes_dom (update [] (start w t))) = {p. node_at t p \<noteq> None}"
  "e \<in> set (nodes_dom (update [] (start w t))) \<Longrightarrow>
     transform e = (x0 (heap (start w t) []), y0 (heap (start w t) []))
     \<and> opacity e = 0
     \<and> transition e = Some \<lparr>to_transform = (x (heap (update [] (start w t)) (datum e)),
                                              y (heap (update [] (start w t)) (datum e))),
                              to_opacity = 1, then_remove = False\<rparr>"
proof -
  define u where "u = update [] (start w t)"
  obtain s2 s3 where dom: "nodes_dom u =
       map (enter_element (tooltip_key_str w) [] s2 s3) (descendants t (heap (start w t)))"
    and x0: "\<And>p. x0 (s2 p) = x0 (heap (start w t) p)" "\<And>p. y0 (s2 p) = y0 (heap (start w t) p)"
    and xy: "\<And>p. x (heap u p) = x (s3 p)" "\<And>p. y (heap u p) = y (s3 p)"
    unfolding u_def by (rule first_pass_nodes [of w t]) blast
  show "datum ` set (nodes_dom (update [] (start w t))) = {p. node_at t p \<noteq> None}"
    unfolding u_def [symmetric] dom set_map image_image
    by (simp add: enter_element_def set_descendants_start)
  show "transform e = (x0 (heap (start w t) []), y0 (heap (start w t) []))
      \<and> opacity e = 0
      \<and> transition e = Some \<lparr>to_transform = (x (heap (update [] (start w t)) (datum e)),
                                               y (heap (update [] (start w t)) (datum e))),
                               to_opacity = 1, then_remove = False\<rparr>"
    if "e \<in> set (nodes_dom (update [] (start w t)))"
    using that unfolding u_def [symmetric] dom by (auto simp: enter_element_def x0 xy)
qed

lemma rejoin_listeners [simp]: "listeners (rejoin_element src s ds e) = listeners e"
  by (simp add: rejoin_element_def split: option.splits)

lemma enter_listeners [simp]: "listeners (enter_element key src s s' d) = hover_listeners key"
  by (simp add: enter_element_def)

lemma update_listeners:
  "\<exists>n. map listeners (nodes_dom (update src st)) =
     map listeners (nodes_dom st) @ replicate n (hover_listeners (tooltip_key_str st))"
proof -
  obtain s2 c2 where k: "bind_keys (descendants (root st) (heap st))
      (bind_keys (map datum (nodes_dom st)) (layout (root st) (heap st), last_id st)) = (s2, c2)"
    by (cases "bind_keys (descendants (root st) (heap st))
      (bind_keys (map datum (nodes_dom st)) (layout (root st) (heap st), last_id st))")
  show ?thesis
    unfolding update_unfold [OF k] by (auto simp: o_def map_replicate_const)
qed

lemma session_snoc: "session w t (clicks @ [d]) = user_click d (session w t clicks)"
  by (simp add: session_def)

lemma clickable_iff:
  assumes st: "steady w t st"
  shows "list_ex (\<lambda>e. datum e = d \<and> on_click e) (nodes_dom st)
     = (visible t (heap st) d \<and> has_slot (heap st d))"
proof
  assume c: "list_ex (\<lambda>e. datum e = d \<and> on_click e) (nodes_dom st)"
  show "visible t (heap st) d \<and> has_slot (heap st d)"
    using clickable_valid(2,3) [OF st c] by simp
next
  assume a: "visible t (heap st) d \<and> has_slot (heap st d)"
  then have "d \<in> datum ` set (nodes_dom st)" unfolding steadyD(9) [OF st] by simp
  then obtain e where e: "e \<in> set (nodes_dom st)" "datum e = d" by auto
  then have "on_click e" using steadyD(13) [OF st e(1)] a by simp
  then show "list_ex (\<lambda>e. datum e = d \<and> on_click e) (nodes_dom st)"
    using e by (auto simp: list_ex_iff)
qed

lemma first_children:
  "children (heap (session w t []) p) =
     (if node_at t p \<noteq> None \<and> json_children (data (hierarchy t p)) = Some []
         \<and> children (hierarchy t p) = Absent then Null else children (hierarchy t p))"
  "children' (heap (session w t []) p) = Absent"
proof -
  obtain s2 s3 where dom: "nodes_dom (update [] (start w t)) =
       map (enter_element (tooltip_key_str w) [] s2 s3) (descendants t (heap (start w t)))"
    and c: "\<And>p. children (heap (update [] (start w t)) p) = children (s3 p)"
    and c': "\<And>p. children' (heap (update [] (start w t)) p) = Absent"
    and s3: "\<And>p. children (s3 p) =
       (if node_at t p \<noteq> None \<and> json_children (data (hierarchy t p)) = Some []
           \<and> children (hierarchy t p) = Absent then Null else children (hierarchy t p))"
    by (rule first_pass_nodes [of w t]) blast
  show "children (heap (session w t []) p) =
     (if node_at t p \<noteq> None \<and> json_children (data (hierarchy t p)) = Some []
         \<and> children (hierarchy t p) = Absent then Null else children (hierarchy t p))"
    "children' (heap (session w t []) p) = Absent"
    unfolding session_def by (simp_all add: c c' s3)
qed

lemma first_visible: "visible t (heap (session w t [])) p = (node_at t p \<noteq> None)"
proof -
  have "visible t (heap (session w t [])) p = visible t (heap (start w t)) p"
    by (rule visible_cong) (auto simp: first_children start_same)
  then show ?thesis by (simp add: visible_hierarchy)
qed

lemma two_folders_a:
  "list_ex (\<lambda>e. datum e = [0] \<and> on_click e) (nodes_dom (session w two_folders []))"
  "children (heap (session w two_folders []) [0]) = Array"
  "children' (heap (session w two_folders []) [0]) = Absent"
  "children (heap (session w two_folders []) []) = Array"
  "visible two_folders (heap (session w two_folders [])) [0, 0]"
proof -
  show c: "children (heap (session w two_folders []) [0]) = Array"
    "children (heap (session w two_folders []) []) = Array"
    unfolding first_children by (simp_all add: two_folders_def hierarchy_def)
  show "children' (heap (session w two_folders []) [0]) = Absent" by (rule first_children)
  show "visible two_folders (heap (session w two_folders [])) [0, 0]"
    unfolding first_visible by (simp add: two_folders_def)
  have "visible two_folders (heap (session w two_folders [])) [0]"
    unfolding first_visible by (simp add: two_folders_def)
  then show "list_ex (\<lambda>e. datum e = [0] \<and> on_click e) (nodes_dom (session w two_folders []))"
    unfolding clickable_iff [OF steady_session] using c by (simp add: has_slot_def)
qed

subsection \<open>Rows and depths\<close>

text \<open>
  C2. Along the pre-order list of the \<open>N\<close> visible Nodes the rows that the layout pass
  assigns are \<open>0, \<dots>, N - 1\<close>. A visible Node comes after each of its ancestors, and
  after the whole subtree of each sibling that precedes it in the input. The horizontal
  position of a visible Node is its depth times the indentation, its vertical position
  its row times the row height; and the depth of a Node is, in every state of a session,
  its distance from the root.
\<close>

theorem layout_rows_preorder:
  "map (\<lambda>p. row (layout t s p)) (preorder t [] s)
     = map (\<lambda>i. Some (int i)) [0..<length (preorder t [] s)]
   \<and> set (preorder t [] s) = {p. visible t s p}
   \<and> (\<forall>p q. visible t s (p @ q) \<and> q \<noteq> [] \<longrightarrow>
         visible t s p \<and> rank t s p < rank t s (p @ q))
   \<and> (\<forall>p i j q r. visible t s (p @ i # q) \<and> visible t s (p @ j # r) \<and> i < j \<longrightarrow>
         rank t s (p @ i # q) < rank t s (p @ j # r))
   \<and> (\<forall>p. visible t s p \<longrightarrow>
         row (layout t s p) = Some (rank t s p)
         \<and> x (layout t s p) = Some (int (depth (s p)) * indentation)
         \<and> y (layout t s p) = Some (rank t s p * row_height))
   \<and> (\<forall>w clicks p. node_at t p \<noteq> None \<longrightarrow> depth (heap (session w t clicks) p) = length p)"
proof (intro conjI allI impI)
  have "map (\<lambda>p. row (layout t s p)) (preorder t [] s)
      = map (\<lambda>p. Some (rank t s p)) (preorder t [] s)"
    by (rule map_cong [OF refl]) (simp add: layout_eq set_preorder place_def)
  also have "\<dots> = map Some (map (\<lambda>p. int (length (takeWhile (\<lambda>q. q \<noteq> p) (preorder t [] s)))) (preorder t [] s))"
    by (simp add: rank_def)
  also have "\<dots> = map (\<lambda>i. Some (int i)) [0..<length (preorder t [] s)]"
    unfolding rows_along [OF distinct_preorder] by simp
  finally show "map (\<lambda>p. row (layout t s p)) (preorder t [] s)
     = map (\<lambda>i. Some (int i)) [0..<length (preorder t [] s)]" .
  show "set (preorder t [] s) = {p. visible t s p}" by (rule set_preorder)
next
  fix p q :: path assume a: "visible t s (p @ q) \<and> q \<noteq> []"
  then show v: "visible t s p" by (auto dest: visible_prefix)
  have "p @ [] < p @ q" unfolding append_less_append using a by (cases q) simp_all
  then show "rank t s p < rank t s (p @ q)"
    using rank_mono [OF v, of "p @ q"] a by simp
next
  fix p q r :: path and i j :: nat
  assume a: "visible t s (p @ i # q) \<and> visible t s (p @ j # r) \<and> i < j"
  have "p @ i # q < p @ j # r" unfolding append_less_append using a by simp
  then show "rank t s (p @ i # q) < rank t s (p @ j # r)"
    using rank_mono [of t s "p @ i # q" "p @ j # r"] a by simp
next
  fix p assume "visible t s p"
  then show "row (layout t s p) = Some (rank t s p)"
    "x (layout t s p) = Some (int (depth (s p)) * indentation)"
    "y (layout t s p) = Some (rank t s p * row_height)"
    by (simp_all add: layout_eq place_def)
next
  fix w clicks p assume "node_at t p \<noteq> None"
  then show "depth (heap (session w t clicks) p) = length p"
    using steadyD(6) [OF steady_session] by simp
qed

text \<open>On the document \<open>two_folders\<close> with the folder \<open>a\<close> collapsed: \<open>d\<close>, at depth 2,
  gets row 3 and the position (44, 81), after its parent \<open>b\<close>.\<close>

theorem layout_rows_preorder_witness:
  "visible two_folders ((hierarchy two_folders)([0] := toggle (hierarchy two_folders [0]))) [1, 0]
   \<and> row (layout two_folders ((hierarchy two_folders)([0] := toggle (hierarchy two_folders [0])))
        [1, 0]) = Some 3
   \<and> x (layout two_folders ((hierarchy two_folders)([0] := toggle (hierarchy two_folders [0])))
        [1, 0]) = Some 44
   \<and> y (layout two_folders ((hierarchy two_folders)([0] := toggle (hierarchy two_folders [0])))
        [1, 0]) = Some 81
   \<and> rank two_folders ((hierarchy two_folders)([0] := toggle (hierarchy two_folders [0]))) [1]
     < rank two_folders ((hierarchy two_folders)([0] := toggle (hierarchy two_folders [0]))) [1, 0]
   \<and> depth (heap (session (FolderTree 100 JS_null) two_folders [[0]]) [1, 0]) = 2"
proof -
  let ?s = "(hierarchy two_folders)([0] := toggle (hierarchy two_folders [0]))"
  note T = layout_rows_preorder [of two_folders ?s]
  have v: "visible two_folders ?s ([1] @ [0])" by code_simp
  have r: "rank two_folders ?s [1, 0] = 3" by code_simp
  have d: "depth (?s [1, 0]) = 2" by code_simp
  have n: "node_at two_folders [1, 0] \<noteq> None" by code_simp
  from T have a: "visible two_folders ?s ([1] @ [0]) \<and> [0] \<noteq> ([]::path) \<longrightarrow>
      visible two_folders ?s [1] \<and> rank two_folders ?s [1] < rank two_folders ?s ([1] @ [0])"
    by blast
  from T have b: "visible two_folders ?s [1, 0] \<longrightarrow>
         row (layout two_folders ?s [1, 0]) = Some (rank two_folders ?s [1, 0])
         \<and> x (layout two_folders ?s [1, 0]) = Some (int (depth (?s [1, 0])) * indentation)
         \<and> y (layout two_folders ?s [1, 0]) = Some (rank two_folders ?s [1, 0] * row_height)"
    by blast
  from T have c: "node_at two_folders [1, 0] \<noteq> None \<longrightarrow>
      depth (heap (session (FolderTree 100 JS_null) two_folders [[0]]) [1, 0]) = length [1, 0::nat]"
    by blast
  show ?thesis
    using a b c v r d n by (simp add: indentation_def row_height_def)
qed

subsection \<open>An item with an empty list of children\<close>

text \<open>
  C3, as amended. A Node whose data has an empty \<open>children\<close> list is normalized at its first
  render, the pass that \<open>load\<close> runs, to an empty folder and not to a Leaf: its
  \<open>children\<close> is set to \<open>null\<close>, its element shows the open-folder glyph and has the click
  handler. No pass of \<open>update\<close>, in any state, changes \<open>children\<close> or \<open>_children\<close> of a
  Node that already has one of them: a Node is never normalized again, and a collapsed
  Node stays collapsed.
\<close>

theorem empty_folder_normalized_once:
  "(\<forall>p d. node_at t p = Some d \<and> json_children d = Some [] \<longrightarrow>
      children (heap (update [] (start w t)) p) = Null
      \<and> children' (heap (update [] (start w t)) p) = Absent
      \<and> (\<exists>e\<in>set (nodes_dom (update [] (start w t))).
            datum e = p \<and> glyph_text e = Open_folder \<and> on_click e))
   \<and> (\<forall>st src p. has_slot (heap st p) \<longrightarrow>
         children (heap (update src st) p) = children (heap st p)
         \<and> children' (heap (update src st) p) = children' (heap st p))"
proof (intro conjI allI impI)
  fix p d assume a: "node_at t p = Some d \<and> json_children d = Some []"
  obtain s2 s3 where dom: "nodes_dom (update [] (start w t)) =
       map (enter_element (tooltip_key_str w) [] s2 s3) (descendants t (heap (start w t)))"
    and c: "\<And>p. children (heap (update [] (start w t)) p) = children (s3 p)"
    and c': "\<And>p. children' (heap (update [] (start w t)) p) = Absent"
    and s3: "\<And>p. children (s3 p) =
       (if node_at t p \<noteq> None \<and> json_children (data (hierarchy t p)) = Some []
           \<and> children (hierarchy t p) = Absent then Null else children (hierarchy t p))"
    by (rule first_pass_nodes [of w t]) blast
  have k: "kids d = []" using a by (cases d) auto
  have n: "children (s3 p) = Null"
    using a k by (simp add: s3 hierarchy_valid)
  show "children (heap (update [] (start w t)) p) = Null" by (simp add: c n)
  show "children' (heap (update [] (start w t)) p) = Absent" by (rule c')
  have "p \<in> set (descendants t (heap (start w t)))"
    using a by (simp add: set_descendants_start)
  then have "enter_element (tooltip_key_str w) [] s2 s3 p \<in> set (nodes_dom (update [] (start w t)))"
    unfolding dom by simp
  moreover have "datum (enter_element (tooltip_key_str w) [] s2 s3 p) = p"
    "glyph_text (enter_element (tooltip_key_str w) [] s2 s3 p) = Open_folder"
    "on_click (enter_element (tooltip_key_str w) [] s2 s3 p)"
    by (simp_all add: enter_element_def folder_icon_def has_slot_def n)
  ultimately show "\<exists>e\<in>set (nodes_dom (update [] (start w t))).
            datum e = p \<and> glyph_text e = Open_folder \<and> on_click e"
    by blast
next
  fix st :: state and src p assume "has_slot (heap st p)"
  then show "children (heap (update src st) p) = children (heap st p)"
    "children' (heap (update src st) p) = children' (heap st p)"
    by (simp_all add: update_slot(1) update_same)
qed

text \<open>On the document \<open>empty_folder\<close>: the first pass sets \<open>children\<close> to \<open>null\<close>, and
  a second pass changes neither property.\<close>

theorem empty_folder_normalized_once_witness:
  "node_at empty_folder [] = Some empty_folder \<and> json_children empty_folder = Some []
   \<and> children (heap (update [] (start (FolderTree 100 JS_null) empty_folder)) []) = Null
   \<and> has_slot (heap (update [] (start (FolderTree 100 JS_null) empty_folder)) [])
   \<and> children (heap (update [] (update [] (start (FolderTree 100 JS_null) empty_folder))) []) = Null
   \<and> children' (heap (update [] (update [] (start (FolderTree 100 JS_null) empty_folder))) [])
       = Absent"
proof -
  let ?u = "update [] (start (FolderTree 100 JS_null) empty_folder)"
  note T = empty_folder_normalized_once [of empty_folder "FolderTree 100 JS_null"]
  have h: "node_at empty_folder [] = Some empty_folder \<and> json_children empty_folder = Some []"
    by (simp add: empty_folder_def)
  from T h have a: "children (heap ?u []) = Null \<and> children' (heap ?u []) = Absent"
    by blast
  then have s: "has_slot (heap ?u [])" by (simp add: has_slot_def)
  from T s have b: "children (heap (update [] ?u) []) = children (heap ?u [])
      \<and> children' (heap (update [] ?u) []) = children' (heap ?u [])"
    by blast
  show ?thesis using h a s b by simp
qed

text \<open>Against C3 as stated: the element of an item with an empty \<open>children\<close> list shows
  the open-folder glyph, not the file glyph, and has the click handler.\<close>

theorem empty_folder_drawn_as_folder:
  "load (FolderTree 100 JS_null) None empty_folder
     = Inr (update [] (start (FolderTree 100 JS_null) empty_folder))
   \<and> json_children empty_folder = Some []
   \<and> map (\<lambda>e. (datum e, glyph_text e, on_click e))
         (nodes_dom (update [] (start (FolderTree 100 JS_null) empty_folder)))
       = [([], Open_folder, True)]"
proof -
  have "map (\<lambda>e. (datum e, glyph_text e, on_click e))
         (nodes_dom (update [] (start (FolderTree 100 JS_null) empty_folder)))
       = [([], Open_folder, True)]"
    by code_simp
  then show ?thesis by (simp add: load_def empty_folder_def)
qed

subsection \<open>Toggling a folder\<close>

text \<open>
  C4. In every state of a session, two clicks in a row on the glyph of the same Node \<open>d\<close>
  leave the data, the depth, the id, \<open>children\<close> and \<open>_children\<close> of every Node as they
  were before the first click, and the same Nodes visible and drawn. When the glyph has
  the handler, the first click did move the child list of \<open>d\<close> to the other property, and
  the glyph still has the handler for the second click.
\<close>

theorem toggle_round_trip:
  "(let st = session w t clicks; st1 = user_click d st; st2 = user_click d st1 in
     (\<forall>p. data (heap st2 p) = data (heap st p) \<and> depth (heap st2 p) = depth (heap st p)
          \<and> node_id (heap st2 p) = node_id (heap st p)
          \<and> children (heap st2 p) = children (heap st p)
          \<and> children' (heap st2 p) = children' (heap st p)
          \<and> visible t (heap st2) p = visible t (heap st) p)
     \<and> datum ` set (nodes_dom st2) = datum ` set (nodes_dom st)
     \<and> (list_ex (\<lambda>e. datum e = d \<and> on_click e) (nodes_dom st) \<longrightarrow>
          list_ex (\<lambda>e. datum e = d \<and> on_click e) (nodes_dom st1)
          \<and> children (heap st1 d) = children' (heap st d)
          \<and> children' (heap st1 d) = children (heap st d)
          \<and> has_slot (heap st d)))"
proof -
  define st where "st = session w t clicks"
  define st1 where "st1 = user_click d st"
  define st2 where "st2 = user_click d st1"
  have s0: "steady w t st" unfolding st_def by (rule steady_session)
  have s1: "steady w t st1" unfolding st1_def using s0 by (rule steady_user_click)
  have s2: "steady w t st2" unfolding st2_def using s1 by (rule steady_user_click)
  have c1: "list_ex (\<lambda>e. datum e = d \<and> on_click e) (nodes_dom st1)"
    if "list_ex (\<lambda>e. datum e = d \<and> on_click e) (nodes_dom st)"
    unfolding st1_def using s0 that by (rule still_clickable)
  have c0: "list_ex (\<lambda>e. datum e = d \<and> on_click e) (nodes_dom st)"
    if "list_ex (\<lambda>e. datum e = d \<and> on_click e) (nodes_dom st1)"
  proof (rule ccontr)
    assume "\<not> list_ex (\<lambda>e. datum e = d \<and> on_click e) (nodes_dom st)"
    then have "st1 = st" by (simp add: st1_def user_click_def)
    then show False
      using that \<open>\<not> list_ex (\<lambda>e. datum e = d \<and> on_click e) (nodes_dom st)\<close> by simp
  qed
  have ceq: "list_ex (\<lambda>e. datum e = d \<and> on_click e) (nodes_dom st1)
      = list_ex (\<lambda>e. datum e = d \<and> on_click e) (nodes_dom st)"
    using c0 c1 by blast
  have f: "data (heap st2 p) = data (heap st p)" "depth (heap st2 p) = depth (heap st p)"
    "node_id (heap st2 p) = node_id (heap st p)"
    "children (heap st2 p) = children (heap st p)"
    "children' (heap st2 p) = children' (heap st p)" for p
    unfolding st2_def user_click_heap [OF s1] ceq
    unfolding st1_def user_click_heap [OF s0]
    by simp_all
  have v: "visible t (heap st2) p = visible t (heap st) p" for p
    by (rule visible_cong) (simp add: f)
  have dom: "datum ` set (nodes_dom st2) = datum ` set (nodes_dom st)"
    unfolding steadyD(9) [OF s2] steadyD(9) [OF s0] by (auto simp: v)
  have first: "children (heap st1 d) = children' (heap st d)
      \<and> children' (heap st1 d) = children (heap st d) \<and> has_slot (heap st d)"
    if "list_ex (\<lambda>e. datum e = d \<and> on_click e) (nodes_dom st)"
    unfolding st1_def user_click_heap [OF s0] using that clickable_valid(2) [OF s0 that] by simp
  show ?thesis
    unfolding Let_def st_def [symmetric] st1_def [symmetric] st2_def [symmetric]
    using f v dom c1 first by blast
qed

text \<open>On the document \<open>two_folders\<close>, clicking the glyph of \<open>a\<close> twice.\<close>

theorem toggle_round_trip_witness:
  "list_ex (\<lambda>e. datum e = [0] \<and> on_click e)
     (nodes_dom (session (FolderTree 100 JS_null) two_folders []))
   \<and> children (heap (user_click [0] (session (FolderTree 100 JS_null) two_folders [])) [0]) = Absent
   \<and> children' (heap (user_click [0] (session (FolderTree 100 JS_null) two_folders [])) [0]) = Array
   \<and> children (heap (user_click [0] (user_click [0]
         (session (FolderTree 100 JS_null) two_folders []))) [0]) = Array
   \<and> children' (heap (user_click [0] (user_click [0]
         (session (FolderTree 100 JS_null) two_folders []))) [0]) = Absent
   \<and> node_id (heap (user_click [0] (user_click [0]
         (session (FolderTree 100 JS_null) two_folders []))) [0, 0])
       = node_id (heap (session (FolderTree 100 JS_null) two_folders []) [0, 0])"
  using toggle_round_trip [of "FolderTree 100 JS_null" two_folders "[]" "[0]"]
    two_folders_a(1,2,3) [of "FolderTree 100 JS_null"]
  by (simp add: Let_def)

text \<open>
  C5. In every state of a session, a click on the glyph of a Node \<open>d\<close> changes \<open>children\<close>
  and \<open>_children\<close> of no other Node. When the glyph has the handler, the whole call of
  \<open>click\<close> (the toggle and the pass it runs) moves the value of the one property of \<open>d\<close>
  that is set to the other property.
\<close>

theorem toggle_locality:
  "(\<forall>p. p \<noteq> d \<longrightarrow>
      children (heap (user_click d (session w t clicks)) p) = children (heap (session w t clicks) p)
      \<and> children' (heap (user_click d (session w t clicks)) p)
          = children' (heap (session w t clicks) p))
   \<and> (list_ex (\<lambda>e. datum e = d \<and> on_click e) (nodes_dom (session w t clicks)) \<longrightarrow>
        user_click d (session w t clicks) = settle (click d (session w t clicks))
        \<and> children (heap (click d (session w t clicks)) d) = children' (heap (session w t clicks) d)
        \<and> children' (heap (click d (session w t clicks)) d) = children (heap (session w t clicks) d)
        \<and> has_slot (heap (session w t clicks) d)
        \<and> (children (heap (session w t clicks) d) = Absent
            \<or> children' (heap (session w t clicks) d) = Absent))"
proof (intro conjI allI impI)
  note st = steady_session [of w t clicks]
  fix p assume "p \<noteq> d"
  then show "children (heap (user_click d (session w t clicks)) p) = children (heap (session w t clicks) p)"
    "children' (heap (user_click d (session w t clicks)) p) = children' (heap (session w t clicks) p)"
    by (simp_all add: user_click_heap [OF st])
next
  note st = steady_session [of w t clicks]
  assume c: "list_ex (\<lambda>e. datum e = d \<and> on_click e) (nodes_dom (session w t clicks))"
  show u: "user_click d (session w t clicks) = settle (click d (session w t clicks))"
    using c by (simp add: user_click_def)
  show "children (heap (click d (session w t clicks)) d) = children' (heap (session w t clicks) d)"
    "children' (heap (click d (session w t clicks)) d) = children (heap (session w t clicks) d)"
    using user_click_heap(1,2) [OF st, of d d] c unfolding u by simp_all
  show "has_slot (heap (session w t clicks) d)" by (rule clickable_valid(2) [OF st c])
  show "children (heap (session w t clicks) d) = Absent
            \<or> children' (heap (session w t clicks) d) = Absent"
    by (rule steadyD(8) [OF st])
qed

text \<open>On the document \<open>two_folders\<close>: a click on the glyph of \<open>a\<close> swaps the two
  properties of \<open>a\<close> and leaves the \<open>children\<close> of the root as they were.\<close>

theorem toggle_locality_witness:
  "list_ex (\<lambda>e. datum e = [0] \<and> on_click e)
     (nodes_dom (session (FolderTree 100 JS_null) two_folders []))
   \<and> children (heap (click [0] (session (FolderTree 100 JS_null) two_folders [])) [0]) = Absent
   \<and> children' (heap (click [0] (session (FolderTree 100 JS_null) two_folders [])) [0]) = Array
   \<and> [] \<noteq> [0::nat]
   \<and> children (heap (user_click [0] (session (FolderTree 100 JS_null) two_folders [])) []) = Array"
proof -
  let ?st = "session (FolderTree 100 JS_null) two_folders []"
  note T = toggle_locality [of "[0]" "FolderTree 100 JS_null" two_folders "[]"]
  note f = two_folders_a [of "FolderTree 100 JS_null"]
  from T have a: "[] \<noteq> [0::nat] \<longrightarrow>
      children (heap (user_click [0] ?st) []) = children (heap ?st [])"
    by blast
  from T f(1) have b: "children (heap (click [0] ?st) [0]) = children' (heap ?st [0])
      \<and> children' (heap (click [0] ?st) [0]) = children (heap ?st [0])"
    by blast
  show ?thesis using a b f by simp
qed

subsection \<open>The rows entering and leaving\<close>

text \<open>
  C6. In the pass that \<open>load\<close> runs (pivot: the root, whose previous position is the origin)
  every element enters: it is made at the origin with opacity 0 and is on its way to the
  position of its own Node with opacity 1. In the pass of a click on \<open>d\<close>, in any state of
  a session: the element of \<open>d\<close> is drawn at the previous position \<open>(x0, y0)\<close> of \<open>d\<close>;
  every Node that is visible now and was not drawn gets an element; every such element is
  made at that previous position with opacity 0 and is on its way to the position of its
  own Node with opacity 1; every element whose Node is no longer visible is still
  there, at its own last position, on its way to the current position of \<open>d\<close> with
  opacity 0, and it is gone when the animations have ended, while its Node is still a
  Node of the hierarchy with its data and its id.
\<close>

theorem reconcile_enter_exit:
  "(let u = update [] (start w t) in
      datum ` set (nodes_dom u) = {p. node_at t p \<noteq> None}
      \<and> (x0 (heap (start w t) []), y0 (heap (start w t) [])) = (Some 0, Some 0)
      \<and> (\<forall>e\<in>set (nodes_dom u).
            transform e = (x0 (heap (start w t) []), y0 (heap (start w t) []))
            \<and> opacity e = 0
            \<and> transition e = Some \<lparr>to_transform = (x (heap u (datum e)), y (heap u (datum e))),
                                     to_opacity = 1, then_remove = False\<rparr>))
   \<and> (let st = session w t clicks; st' = click d st in
        list_ex (\<lambda>e. datum e = d \<and> on_click e) (nodes_dom st) \<longrightarrow>
          (\<exists>e0\<in>set (nodes_dom st). datum e0 = d
               \<and> transform e0 = (x0 (heap st d), y0 (heap st d)))
          \<and> (\<forall>p. visible t (heap st') p \<and> p \<notin> datum ` set (nodes_dom st) \<longrightarrow>
                (\<exists>e\<in>set (nodes_dom st'). datum e = p))
          \<and> (\<forall>e\<in>set (nodes_dom st'). datum e \<notin> datum ` set (nodes_dom st) \<longrightarrow>
                visible t (heap st') (datum e)
                \<and> transform e = (x0 (heap st d), y0 (heap st d))
                \<and> opacity e = 0
                \<and> transition e = Some \<lparr>to_transform = (x (heap st' (datum e)), y (heap st' (datum e))),
                                         to_opacity = 1, then_remove = False\<rparr>)
          \<and> (\<forall>e0\<in>set (nodes_dom st). \<not> visible t (heap st') (datum e0) \<longrightarrow>
                (\<exists>e\<in>set (nodes_dom st'). datum e = datum e0
                   \<and> transform e = (x (heap st (datum e0)), y (heap st (datum e0)))
                   \<and> opacity e = 1))
          \<and> (\<forall>e\<in>set (nodes_dom st'). \<not> visible t (heap st') (datum e) \<longrightarrow>
                datum e \<in> datum ` set (nodes_dom st)
                \<and> transition e = Some \<lparr>to_transform = (x (heap st' d), y (heap st' d)),
                                         to_opacity = 0, then_remove = True\<rparr>
                \<and> datum e \<notin> datum ` set (nodes_dom (settle st'))
                \<and> node_at (root st') (datum e) \<noteq> None
                \<and> data (heap st' (datum e)) = data (heap st (datum e))
                \<and> node_id (heap st' (datum e)) = node_id (heap st (datum e))))"
proof (intro conjI)
  show "let u = update [] (start w t) in
      datum ` set (nodes_dom u) = {p. node_at t p \<noteq> None}
      \<and> (x0 (heap (start w t) []), y0 (heap (start w t) [])) = (Some 0, Some 0)
      \<and> (\<forall>e\<in>set (nodes_dom u).
            transform e = (x0 (heap (start w t) []), y0 (heap (start w t) []))
            \<and> opacity e = 0
            \<and> transition e = Some \<lparr>to_transform = (x (heap u (datum e)), y (heap u (datum e))),
                                     to_opacity = 1, then_remove = False\<rparr>)"
    unfolding Let_def
    using first_pass_enter(1) [of w t] first_pass_enter(2) [where w = w and t = t]
    by (simp add: start_same)
next
  define st where "st = session w t clicks"
  define st' where "st' = click d st"
  define h where "h = (heap st)(d := toggle (heap st d))"
  define L where "L = layout t h"
  define A where "A = (\<lambda>e. if datum e \<in> set (descendants t h)
                then (reglyph d (h d) e)\<lparr>transition :=
                   Some \<lparr>to_transform = (x (L (datum e)), y (L (datum e))), to_opacity = 1,
                         then_remove = False\<rparr>\<rparr>
                else (reglyph d (h d) e)\<lparr>transition :=
                   Some \<lparr>to_transform = (x (L d), y (L d)), to_opacity = 0,
                         then_remove = True\<rparr>\<rparr>)"
  define E where "E = enter_element (tooltip_key_str st) d L L"
  have s: "steady w t st" unfolding st_def by (rule steady_session)
  have main:
    "(\<exists>e0\<in>set (nodes_dom st). datum e0 = d
               \<and> transform e0 = (x0 (heap st d), y0 (heap st d)))
          \<and> (\<forall>p. visible t (heap st') p \<and> p \<notin> datum ` set (nodes_dom st) \<longrightarrow>
                (\<exists>e\<in>set (nodes_dom st'). datum e = p))
          \<and> (\<forall>e\<in>set (nodes_dom st'). datum e \<notin> datum ` set (nodes_dom st) \<longrightarrow>
                visible t (heap st') (datum e)
                \<and> transform e = (x0 (heap st d), y0 (heap st d))
                \<and> opacity e = 0
                \<and> transition e = Some \<lparr>to_transform = (x (heap st' (datum e)), y (heap st' (datum e))),
                                         to_opacity = 1, then_remove = False\<rparr>)
          \<and> (\<forall>e0\<in>set (nodes_dom st). \<not> visible t (heap st') (datum e0) \<longrightarrow>
                (\<exists>e\<in>set (nodes_dom st'). datum e = datum e0
                   \<and> transform e = (x (heap st (datum e0)), y (heap st (datum e0)))
                   \<and> opacity e = 1))
          \<and> (\<forall>e\<in>set (nodes_dom st'). \<not> visible t (heap st') (datum e) \<longrightarrow>
                datum e \<in> datum ` set (nodes_dom st)
                \<and> transition e = Some \<lparr>to_transform = (x (heap st' d), y (heap st' d)),
                                         to_opacity = 0, then_remove = True\<rparr>
                \<and> datum e \<notin> datum ` set (nodes_dom (settle st'))
                \<and> node_at (root st') (datum e) \<noteq> None
                \<and> data (heap st' (datum e)) = data (heap st (datum e))
                \<and> node_id (heap st' (datum e)) = node_id (heap st (datum e)))"
    if c: "list_ex (\<lambda>e. datum e = d \<and> on_click e) (nodes_dom st)"
  proof -
    note dv = clickable_valid [OF s c]
    note same = click_same [OF s dv(1)]
    have dom: "nodes_dom st' = map A (nodes_dom st)
        @ map E (filter (\<lambda>q. q \<notin> datum ` set (nodes_dom st)) (descendants t h))"
      unfolding st'_def click_steady [OF s dv(1)] A_def E_def L_def h_def by simp
    have vis: "visible t (heap st') p = visible t h p" for p
      unfolding st'_def h_def by (rule click_visible [OF s dv(1)])
    have ds: "set (descendants t h) = {p. visible t (heap st') p}"
      by (simp add: set_descendants vis)
    have xy: "x (heap st' p) = x (L p)" "y (heap st' p) = y (L p)" for p
      unfolding st'_def L_def h_def by (rule click_xy [OF s dv(1)])+
    have L0: "x0 (L p) = x0 (heap st p)" "y0 (L p) = y0 (heap st p)" for p
      unfolding L_def h_def by (simp_all add: layout_same toggle_same)
    have dA: "datum (A e) = datum e" "transform (A e) = transform e" "opacity (A e) = opacity e" for e
      by (simp_all add: A_def)
    have tA: "transition (A e) = (if visible t (heap st') (datum e)
         then Some \<lparr>to_transform = (x (heap st' (datum e)), y (heap st' (datum e))), to_opacity = 1,
                    then_remove = False\<rparr>
         else Some \<lparr>to_transform = (x (heap st' d), y (heap st' d)), to_opacity = 0,
                    then_remove = True\<rparr>)" for e
      using ds by (simp add: A_def xy)
    have pE: "datum (E q) = q" "transform (E q) = (x0 (heap st d), y0 (heap st d))"
      "opacity (E q) = 0"
      "transition (E q) = Some \<lparr>to_transform = (x (heap st' q), y (heap st' q)), to_opacity = 1,
                                 then_remove = False\<rparr>" for q
      by (simp_all add: E_def enter_element_def L0 xy)
    obtain e0 where e0: "e0 \<in> set (nodes_dom st)" "datum e0 = d"
      using c by (auto simp: list_ex_iff)
    have p1: "\<exists>e0\<in>set (nodes_dom st). datum e0 = d
               \<and> transform e0 = (x0 (heap st d), y0 (heap st d))"
      using e0 steadyD(12) [OF s e0(1)] steadyD(15,16) [OF s dv(3)] by auto
    have p2: "\<exists>e\<in>set (nodes_dom st'). datum e = p"
      if "visible t (heap st') p \<and> p \<notin> datum ` set (nodes_dom st)" for p
    proof -
      have "E p \<in> set (nodes_dom st')" using that ds unfolding dom by simp
      then show ?thesis using pE(1) by blast
    qed
    have split: "(\<exists>e1\<in>set (nodes_dom st). e = A e1)
        \<or> (\<exists>q. visible t (heap st') q \<and> q \<notin> datum ` set (nodes_dom st) \<and> e = E q)"
      if "e \<in> set (nodes_dom st')" for e
      using that ds unfolding dom by auto
    have p3: "visible t (heap st') (datum e)
                \<and> transform e = (x0 (heap st d), y0 (heap st d))
                \<and> opacity e = 0
                \<and> transition e = Some \<lparr>to_transform = (x (heap st' (datum e)), y (heap st' (datum e))),
                                         to_opacity = 1, then_remove = False\<rparr>"
      if "e \<in> set (nodes_dom st')" "datum e \<notin> datum ` set (nodes_dom st)" for e
      using split [OF that(1)] that(2) by (auto simp: dA pE)
    have p4: "\<exists>e\<in>set (nodes_dom st'). datum e = datum e1
                   \<and> transform e = (x (heap st (datum e1)), y (heap st (datum e1)))
                   \<and> opacity e = 1"
      if "e1 \<in> set (nodes_dom st)" for e1
    proof -
      have "A e1 \<in> set (nodes_dom st')" using that unfolding dom by simp
      then show ?thesis
        using steadyD(11,12) [OF s that] dA by metis
    qed
    have settled: "datum ` set (nodes_dom (settle st')) = {p. visible t (heap st') p}"
      using steadyD(9) [OF steady_click [OF s dv(1,2)]] by (simp add: st'_def)
    have p5: "datum e \<in> datum ` set (nodes_dom st)
                \<and> transition e = Some \<lparr>to_transform = (x (heap st' d), y (heap st' d)),
                                         to_opacity = 0, then_remove = True\<rparr>
                \<and> datum e \<notin> datum ` set (nodes_dom (settle st'))
                \<and> node_at (root st') (datum e) \<noteq> None
                \<and> data (heap st' (datum e)) = data (heap st (datum e))
                \<and> node_id (heap st' (datum e)) = node_id (heap st (datum e))"
      if a: "e \<in> set (nodes_dom st')" "\<not> visible t (heap st') (datum e)" for e
    proof -
      obtain e1 where e1: "e1 \<in> set (nodes_dom st)" "e = A e1"
        using split [OF a(1)] a(2) by (auto simp: pE)
      have "node_at t (datum e1) \<noteq> None" by (rule steady_drawn_valid(2) [OF s e1(1)])
      then show ?thesis
        using e1 a(2) by (simp add: dA tA settled same [folded st'_def])
    qed
    show ?thesis using p1 p2 p3 p4 p5 by blast
  qed
  show "let st = session w t clicks; st' = click d st in
        list_ex (\<lambda>e. datum e = d \<and> on_click e) (nodes_dom st) \<longrightarrow>
          (\<exists>e0\<in>set (nodes_dom st). datum e0 = d
               \<and> transform e0 = (x0 (heap st d), y0 (heap st d)))
          \<and> (\<forall>p. visible t (heap st') p \<and> p \<notin> datum ` set (nodes_dom st) \<longrightarrow>
                (\<exists>e\<in>set (nodes_dom st'). datum e = p))
          \<and> (\<forall>e\<in>set (nodes_dom st'). datum e \<notin> datum ` set (nodes_dom st) \<longrightarrow>
                visible t (heap st') (datum e)
                \<and> transform e = (x0 (heap st d), y0 (heap st d))
                \<and> opacity e = 0
                \<and> transition e = Some \<lparr>to_transform = (x (heap st' (datum e)), y (heap st' (datum e))),
                                         to_opacity = 1, then_remove = False\<rparr>)
          \<and> (\<forall>e0\<in>set (nodes_dom st). \<not> visible t (heap st') (datum e0) \<longrightarrow>
                (\<exists>e\<in>set (nodes_dom st'). datum e = datum e0
                   \<and> transform e = (x (heap st (datum e0)), y (heap st (datum e0)))
                   \<and> opacity e = 1))
          \<and> (\<forall>e\<in>set (nodes_dom st'). \<not> visible t (heap st') (datum e) \<longrightarrow>
                datum e \<in> datum ` set (nodes_dom st)
                \<and> transition e = Some \<lparr>to_transform = (x (heap st' d), y (heap st' d)),
                                         to_opacity = 0, then_remove = True\<rparr>
                \<and> datum e \<notin> datum ` set (nodes_dom (settle st'))
                \<and> node_at (root st') (datum e) \<noteq> None
                \<and> data (heap st' (datum e)) = data (heap st (datum e))
                \<and> node_id (heap st' (datum e)) = node_id (heap st (datum e)))"
    unfolding Let_def st_def [symmetric] st'_def [symmetric] using main by blast
qed

text \<open>On the document \<open>two_folders\<close>: collapsing \<open>a\<close> and expanding it again.\<close>

theorem reconcile_enter_exit_witness:
  "list_ex (\<lambda>e. datum e = [0] \<and> on_click e)
     (nodes_dom (session (FolderTree 100 JS_null) two_folders []))
   \<and> \<not> visible two_folders
         (heap (click [0] (session (FolderTree 100 JS_null) two_folders []))) [0, 0]
   \<and> (\<exists>e\<in>set (nodes_dom (click [0] (session (FolderTree 100 JS_null) two_folders []))).
         datum e = [0, 0]
         \<and> transition e = Some \<lparr>to_transform =
               (x (heap (click [0] (session (FolderTree 100 JS_null) two_folders [])) [0]),
                y (heap (click [0] (session (FolderTree 100 JS_null) two_folders [])) [0])),
              to_opacity = 0, then_remove = True\<rparr>
         \<and> datum e \<notin> datum ` set (nodes_dom (settle
               (click [0] (session (FolderTree 100 JS_null) two_folders [])))))
   \<and> list_ex (\<lambda>e. datum e = [0] \<and> on_click e)
       (nodes_dom (session (FolderTree 100 JS_null) two_folders [[0]]))
   \<and> [0, 0] \<notin> datum ` set (nodes_dom (session (FolderTree 100 JS_null) two_folders [[0]]))
   \<and> (\<exists>e\<in>set (nodes_dom (click [0] (session (FolderTree 100 JS_null) two_folders [[0]]))).
         datum e = [0, 0]
         \<and> transform e = (x0 (heap (session (FolderTree 100 JS_null) two_folders [[0]]) [0]),
                          y0 (heap (session (FolderTree 100 JS_null) two_folders [[0]]) [0]))
         \<and> opacity e = 0)"
proof -
  let ?w = "FolderTree 100 JS_null"
  define st where "st = session ?w two_folders []"
  define st1 where "st1 = session ?w two_folders [[0]]"
  have s: "steady ?w two_folders st" unfolding st_def by (rule steady_session)
  have s1: "steady ?w two_folders st1" unfolding st1_def by (rule steady_session)
  have st1: "st1 = user_click [0] st"
    unfolding st1_def st_def using session_snoc [of ?w two_folders "[]" "[0]"] by simp
  note f = two_folders_a [of ?w, folded st_def]
  note dv = clickable_valid [OF s f(1)]
  txt \<open>The first click collapses \<open>a\<close>: the element of \<open>c\<close> exits.\<close>
  have ch0: "children (heap (click [0] st) [0]) = Absent" "children (heap (click [0] st) []) = Array"
    using f by (simp_all add: click_same [OF s dv(1)] toggle_slots)
  have nv: "\<not> visible two_folders (heap (click [0] st)) [0, 0]"
    using ch0 by (simp add: visible_def numeral_2_eq_2)
  have "[0, 0] \<in> datum ` set (nodes_dom st)"
    unfolding steadyD(9) [OF s] using f(5) by simp
  then obtain e0 where e0: "e0 \<in> set (nodes_dom st)" "datum e0 = [0, 0]"
    by auto
  note T = reconcile_enter_exit [of ?w two_folders "[]" "[0]", unfolded Let_def,
      folded st_def, THEN conjunct2, rule_format, OF f(1)]
  from T e0 nv obtain e where e: "e \<in> set (nodes_dom (click [0] st))" "datum e = [0, 0]"
    by (metis (no_types, lifting))
  from T e nv have ex: "transition e = Some \<lparr>to_transform =
        (x (heap (click [0] st) [0]), y (heap (click [0] st) [0])), to_opacity = 0,
        then_remove = True\<rparr>
      \<and> datum e \<notin> datum ` set (nodes_dom (settle (click [0] st)))"
    by (metis (no_types, lifting))
  txt \<open>The second click expands \<open>a\<close>: an element for \<open>c\<close> enters.\<close>
  have c1: "list_ex (\<lambda>e. datum e = [0] \<and> on_click e) (nodes_dom st1)"
    unfolding st1 using s f(1) by (rule still_clickable)
  note dv1 = clickable_valid [OF s1 c1]
  have h1: "children (heap st1 [0]) = Absent" "children' (heap st1 [0]) = Array"
    "children (heap st1 []) = Array"
    unfolding st1 using f by (simp_all add: user_click_heap [OF s])
  have "\<not> visible two_folders (heap st1) [0, 0]"
    using h1 by (simp add: visible_def numeral_2_eq_2)
  then have nd: "[0, 0] \<notin> datum ` set (nodes_dom st1)"
    unfolding steadyD(9) [OF s1] by simp
  have "children (heap (click [0] st1) [0]) = Array" "children (heap (click [0] st1) []) = Array"
    using h1 by (simp_all add: click_same [OF s1 dv1(1)] toggle_slots)
  then have v1: "visible two_folders (heap (click [0] st1)) [0, 0]"
    by (simp add: visible_def numeral_2_eq_2 two_folders_def)
  note T1 = reconcile_enter_exit [of ?w two_folders "[[0]]" "[0]", unfolded Let_def,
      folded st1_def, THEN conjunct2, rule_format, OF c1]
  from T1 v1 nd obtain e' where e': "e' \<in> set (nodes_dom (click [0] st1))" "datum e' = [0, 0]"
    by (metis (no_types, lifting))
  from T1 e' nd have en: "transform e' = (x0 (heap st1 [0]), y0 (heap st1 [0])) \<and> opacity e' = 0"
    by (metis (no_types, lifting))
  show ?thesis
    unfolding st_def [symmetric] st1_def [symmetric]
    using f(1) nv e ex c1 nd e' en by blast
qed

subsection \<open>The connectors\<close>

lemma map_snd_zip_length: "map snd (zip xs ys) = take (length xs) ys"
  by (cases "length xs \<le> length ys") (simp_all add: map_snd_zip_take min_def)

lemma join_links_data:
  "map link_datum (filter (\<lambda>e. \<not> removing_link e) (join_links n s els ls)) = ls"
  "map link_datum (filter removing_link (join_links n s els ls))
     = map link_datum (drop (length ls) els)"
proof -
  have z: "map link_datum (map (\<lambda>(e, l). e\<lparr>link_datum := l, link_transition := Some (link_path s l, False)\<rparr>)
      (zip els ls)) = take (length els) ls"
    by (simp add: o_def case_prod_beta map_snd_zip_length [symmetric])
  show "map link_datum (filter (\<lambda>e. \<not> removing_link e) (join_links n s els ls)) = ls"
    unfolding join_links_def filter_append map_append
    using z by (simp add: filter_map o_def removing_link_def case_prod_beta)
  show "map link_datum (filter removing_link (join_links n s els ls))
     = map link_datum (drop (length ls) els)"
    unfolding join_links_def filter_append map_append
    by (simp add: filter_map o_def removing_link_def case_prod_beta)
qed

lemma finish_link_datum [simp]: "link_datum (finish_link e) = link_datum e"
  by (simp add: finish_link_def split: option.splits prod.splits)

lemma settle_links:
  "links_dom (settle st) = map finish_link (filter (\<lambda>e. \<not> removing_link e) (links_dom st))"
  by (simp add: settle_def)

lemma update_links:
  "map link_datum (filter removing_link (links_dom (update src st)))
     = map link_datum (drop (length (links (root st) (heap st))) (links_dom st))"
  "map link_datum (links_dom (settle (update src st))) = links (root st) (heap st)"
proof -
  obtain s2 c2 where k: "bind_keys (descendants (root st) (heap st))
      (bind_keys (map datum (nodes_dom st)) (layout (root st) (heap st), last_id st)) = (s2, c2)"
    by (cases "bind_keys (descendants (root st) (heap st))
      (bind_keys (map datum (nodes_dom st)) (layout (root st) (heap st), last_id st))")
  show "map link_datum (filter removing_link (links_dom (update src st)))
     = map link_datum (drop (length (links (root st) (heap st))) (links_dom st))"
    unfolding update_unfold [OF k] by (simp add: join_links_data)
  show "map link_datum (links_dom (settle (update src st))) = links (root st) (heap st)"
    unfolding settle_links update_unfold [OF k] by (simp add: o_def join_links_data)
qed

lemma update_open:
  "(children (heap (update src st) r) = Array) = (children (heap st r) = Array)"
  using update_slot(2) [of src st r] by (auto simp: has_slot_def)

lemma links_cong:
  "\<forall>r. (children (s r) = Array) = (children (u r) = Array) \<Longrightarrow> links t s = links t u"
  using descendants_cong [of s u t] by (simp add: links_def)

lemma click_links:
  "map link_datum (filter removing_link (links_dom (click d st)))
     = map link_datum (drop (length (links (root st) ((heap st)(d := toggle (heap st d)))))
         (links_dom st))"
  "map link_datum (links_dom (settle (click d st)))
     = links (root st) ((heap st)(d := toggle (heap st d)))"
  "links (root st) (heap (click d st)) = links (root st) ((heap st)(d := toggle (heap st d)))"
  unfolding click_def Let_def
  by (simp_all add: update_links) (rule links_cong, simp add: update_open)

lemma session_links:
  "map link_datum (links_dom (session w t clicks)) = links t (heap (session w t clicks))"
proof -
  have step: "map link_datum (links_dom (user_click d st)) = links t (heap (user_click d st))"
    if "root st = t" "map link_datum (links_dom st) = links t (heap st)" for d st
    using that click_links(2,3) [where d = d and st = st] by (simp add: user_click_def)
  have root: "root (user_click d st) = root st" for d st
    by (simp add: user_click_def click_def Let_def update_same)
  have all: "root (foldl (\<lambda>st d. user_click d st) st clicks) = t
      \<and> map link_datum (links_dom (foldl (\<lambda>st d. user_click d st) st clicks))
        = links t (heap (foldl (\<lambda>st d. user_click d st) st clicks))"
    if "root st = t" "map link_datum (links_dom st) = links t (heap st)" for st
    using that by (induction clicks arbitrary: st) (simp_all add: step root)
  have "links t (heap (update [] (start w t))) = links t (heap (start w t))"
    by (rule links_cong) (simp add: update_open)
  then show ?thesis
    unfolding session_def
    using all [of "settle (update [] (start w t))"]
    by (simp add: update_links(2) update_same start_same)
qed

text \<open>
  C7, at the document \<open>two_folders\<close>. After \<open>load\<close> four connectors are drawn. The click on
  the glyph of \<open>a\<close> takes the connector from \<open>a\<close> to \<open>c\<close> out of the hierarchy, and the
  connector from \<open>b\<close> to \<open>d\<close> stays. The join of the connectors has no key, so it is by
  index: the drawn connector that exits is the last one, the one bound to \<open>b\<close> and \<open>d\<close>.
\<close>

theorem links_joined_by_index:
  "links two_folders (heap (session w two_folders []))
     = [([], [0]), ([], [1]), ([0], [0, 0]), ([1], [1, 0])]
   \<and> user_click [0] (session w two_folders []) = settle (click [0] (session w two_folders []))
   \<and> links two_folders (heap (click [0] (session w two_folders [])))
     = [([], [0]), ([], [1]), ([1], [1, 0])]
   \<and> map link_datum (filter removing_link (links_dom (click [0] (session w two_folders []))))
     = [([1], [1, 0])]
   \<and> map link_datum (links_dom (settle (click [0] (session w two_folders []))))
     = [([], [0]), ([], [1]), ([1], [1, 0])]"
proof -
  define st where "st = session w two_folders []"
  have s: "steady w two_folders st" unfolding st_def by (rule steady_session)
  have r: "root st = two_folders" using s by (rule steadyD)
  have l0: "links two_folders (hierarchy two_folders)
      = [([], [0]), ([], [1]), ([0], [0, 0]), ([1], [1, 0])]"
    by code_simp
  have l1: "links two_folders ((hierarchy two_folders)([0] := toggle (hierarchy two_folders [0])))
      = [([], [0]), ([], [1]), ([1], [1, 0])]"
    by code_simp
  have ar: "(children (heap st r) = Array) = (children (hierarchy two_folders r) = Array)" for r
    unfolding st_def by (simp add: first_children)
  have a: "links two_folders (heap st) = [([], [0]), ([], [1]), ([0], [0, 0]), ([1], [1, 0])]"
    unfolding l0 [symmetric] by (rule links_cong) (rule allI, rule ar)
  have tg: "(children (((heap st)([0] := toggle (heap st [0]))) r) = Array)
      = (children (((hierarchy two_folders)([0] := toggle (hierarchy two_folders [0]))) r) = Array)" for r
    using ar [of r] ar [of "[0]"] first_children(2) [of w two_folders "[0]"]
    by (auto simp: toggle_slots st_def hierarchy_same)
  have b: "links two_folders ((heap st)([0] := toggle (heap st [0])))
      = [([], [0]), ([], [1]), ([1], [1, 0])]"
    unfolding l1 [symmetric] by (rule links_cong) (rule allI, rule tg)
  have "visible two_folders (heap st) [0] \<and> has_slot (heap st [0])"
    unfolding st_def first_visible first_children has_slot_def
    by (simp add: two_folders_def hierarchy_def)
  then have c: "list_ex (\<lambda>e. datum e = [0] \<and> on_click e) (nodes_dom st)"
    unfolding clickable_iff [OF s] .
  have d: "map link_datum (links_dom st) = [([], [0]), ([], [1]), ([0], [0, 0]), ([1], [1, 0])]"
    unfolding st_def session_links using a by (simp add: st_def)
  have e: "map link_datum (drop 3 (links_dom st)) = [([1], [1, 0])]"
    unfolding drop_map [symmetric] d by simp
  show ?thesis
    unfolding st_def [symmetric]
    using a b c e click_links [where d = "[0]" and st = st] r
    by (simp add: user_click_def numeral_3_eq_3)
qed

subsection \<open>Loading\<close>

text \<open>
  C8. \<open>load\<close> with an error from the data-loading collaborator throws that error: nothing
  is built and no pass runs. With a document it builds the hierarchy, sets \<open>x0\<close> and \<open>y0\<close>
  of the root to 0, and runs the first pass with the root as pivot: every Node of the
  document is drawn, entering at the origin.
\<close>

theorem load_outcome:
  "load w (Some e) t = Inl e
   \<and> load w None t = Inr (update [] (start w t))
   \<and> root (start w t) = t
   \<and> heap (start w t) = (hierarchy t)([] := (hierarchy t [])\<lparr>x0 := Some 0, y0 := Some 0\<rparr>)
   \<and> nodes_dom (start w t) = [] \<and> links_dom (start w t) = []
   \<and> (\<forall>st. load w None t = Inr st \<longrightarrow>
         root st = t
         \<and> datum ` set (nodes_dom st) = {p. node_at t p \<noteq> None}
         \<and> (\<forall>e\<in>set (nodes_dom st). transform e = (Some 0, Some 0) \<and> opacity e = 0)
         \<and> steady w t (settle st))"
proof (intro conjI allI impI ballI)
  show "load w (Some e) t = Inl e" "load w None t = Inr (update [] (start w t))"
    by (simp_all add: load_def)
  show "root (start w t) = t"
    "heap (start w t) = (hierarchy t)([] := (hierarchy t [])\<lparr>x0 := Some 0, y0 := Some 0\<rparr>)"
    "nodes_dom (start w t) = []" "links_dom (start w t) = []"
    by (simp_all add: start_def)
next
  fix st assume "load w None t = Inr st"
  then have st: "st = update [] (start w t)" by (simp add: load_def)
  show "root st = t" unfolding st by (simp add: update_same start_same)
  show "datum ` set (nodes_dom st) = {p. node_at t p \<noteq> None}"
    unfolding st by (rule first_pass_enter(1))
  show "steady w t (settle st)" unfolding st by (rule steady_first)
  fix e' assume "e' \<in> set (nodes_dom st)"
  then show "transform e' = (Some 0, Some 0)" "opacity e' = 0"
    unfolding st using first_pass_enter(2) [of e' w t] by (simp_all add: start_same)
qed

text \<open>The load of the document \<open>empty_folder\<close>, and a load that fails.\<close>

theorem load_outcome_witness:
  "load (FolderTree 100 JS_null) None empty_folder
     = Inr (update [] (start (FolderTree 100 JS_null) empty_folder))
   \<and> datum ` set (nodes_dom (update [] (start (FolderTree 100 JS_null) empty_folder)))
     = {p. node_at empty_folder p \<noteq> None}
   \<and> node_at empty_folder [] \<noteq> None
   \<and> list_all (\<lambda>e. transform e = (Some 0, Some 0) \<and> opacity e = 0)
        (nodes_dom (update [] (start (FolderTree 100 JS_null) empty_folder)))
   \<and> load (FolderTree 100 JS_null) (Some (Error ''not found'')) empty_folder
     = Inl (Error ''not found'')"
proof -
  note T = load_outcome [of "FolderTree 100 JS_null" "Error ''not found''" empty_folder]
  from T have l: "load (FolderTree 100 JS_null) None empty_folder
     = Inr (update [] (start (FolderTree 100 JS_null) empty_folder))"
    by blast
  from T l have a: "datum ` set (nodes_dom (update [] (start (FolderTree 100 JS_null) empty_folder)))
       = {p. node_at empty_folder p \<noteq> None}
     \<and> (\<forall>e\<in>set (nodes_dom (update [] (start (FolderTree 100 JS_null) empty_folder))).
           transform e = (Some 0, Some 0) \<and> opacity e = 0)"
    by blast
  from T have e: "load (FolderTree 100 JS_null) (Some (Error ''not found'')) empty_folder
     = Inl (Error ''not found'')"
    by blast
  show ?thesis using l a e by (simp add: list_all_iff)
qed

subsection \<open>Tooltips\<close>

text \<open>
  C9, as amended. The constructor keeps the tooltip key exactly when the argument is a
  string, the empty string included. In every state of a session every drawn element has
  the three hover listeners, showing the field of that name, when the argument is a
  string, and no listener otherwise; and a pass attaches listeners to the entering
  elements only.
\<close>

theorem tooltips_iff_string:
  "tooltip_key_str (FolderTree mh k) = (if is_string k then Some (string_of k) else None)
   \<and> nodes_dom (session (FolderTree mh k) t clicks) \<noteq> []
   \<and> (\<forall>e\<in>set (nodes_dom (session (FolderTree mh k) t clicks)).
         listeners e = (if is_string k then [Mouseover, Mousemove (string_of k), Mouseout] else []))
   \<and> (\<forall>st src. \<exists>n. map listeners (nodes_dom (update src st)) =
         map listeners (nodes_dom st) @ replicate n (hover_listeners (tooltip_key_str st)))"
proof (intro conjI allI ballI)
  show "tooltip_key_str (FolderTree mh k) = (if is_string k then Some (string_of k) else None)"
    by (rule FolderTree_key)
  show "nodes_dom (session (FolderTree mh k) t clicks) \<noteq> []"
    using session_root_drawn [of "FolderTree mh k" t clicks] by auto
  show "listeners e = (if is_string k then [Mouseover, Mousemove (string_of k), Mouseout] else [])"
    if "e \<in> set (nodes_dom (session (FolderTree mh k) t clicks))" for e
    using session_listeners [OF that] by (simp add: FolderTree_key hover_listeners_def)
  show "\<exists>n. map listeners (nodes_dom (update src st)) =
         map listeners (nodes_dom st) @ replicate n (hover_listeners (tooltip_key_str st))"
    for st :: state and src
    by (rule update_listeners)
qed

text \<open>With the string \<open>tip\<close> as key, and with \<open>undefined\<close>.\<close>

theorem tooltips_iff_string_witness:
  "is_string (JS_string ''tip'')
   \<and> nodes_dom (session (FolderTree 100 (JS_string ''tip'')) empty_folder []) \<noteq> []
   \<and> list_all (\<lambda>e. listeners e = [Mouseover, Mousemove ''tip'', Mouseout])
        (nodes_dom (session (FolderTree 100 (JS_string ''tip'')) empty_folder []))
   \<and> \<not> is_string JS_undefined
   \<and> list_all (\<lambda>e. listeners e = [])
        (nodes_dom (session (FolderTree 100 JS_undefined) empty_folder []))"
  using tooltips_iff_string [of 100 "JS_string ''tip''" empty_folder "[]"]
    tooltips_iff_string [of 100 JS_undefined empty_folder "[]"]
  by (simp add: list_all_iff)

text \<open>Against C9 as stated: with the empty string as key, which is not \<open>null\<close>, the
  listeners are attached.\<close>

theorem empty_key_enables_tooltips:
  "JS_string [] \<noteq> JS_null \<and> string_of (JS_string []) = []
   \<and> tooltip_key_str (FolderTree 100 (JS_string [])) = Some []
   \<and> map listeners (nodes_dom (update [] (start (FolderTree 100 (JS_string [])) empty_folder)))
       = [[Mouseover, Mousemove [], Mouseout]]"
  by code_simp

text \<open>
  C10. For an argument \<open>tooltip_key\<close> that is not \<open>null\<close> and not a string, \<open>tooltip_key_str\<close>
  stays \<open>null\<close>, and no drawn element of any state of a session has a hover listener.
\<close>

theorem non_string_key_is_null:
  "k \<noteq> JS_null \<Longrightarrow> \<not> is_string k \<Longrightarrow>
   tooltip_key_str (FolderTree mh k) = None
   \<and> nodes_dom (session (FolderTree mh k) t clicks) \<noteq> []
   \<and> (\<forall>e\<in>set (nodes_dom (session (FolderTree mh k) t clicks)). listeners e = [])"
proof (intro conjI ballI)
  assume k: "\<not> is_string k"
  show "tooltip_key_str (FolderTree mh k) = None" using k by (simp add: FolderTree_key)
  show "nodes_dom (session (FolderTree mh k) t clicks) \<noteq> []"
    using session_root_drawn [of "FolderTree mh k" t clicks] by auto
  show "listeners e = []" if "e \<in> set (nodes_dom (session (FolderTree mh k) t clicks))" for e
    using session_listeners [OF that] k by (simp add: FolderTree_key hover_listeners_def)
qed

text \<open>With a number as key.\<close>

theorem non_string_key_is_null_witness:
  "JS_number 5 \<noteq> JS_null \<and> \<not> is_string (JS_number 5)
   \<and> tooltip_key_str (FolderTree 100 (JS_number 5)) = None
   \<and> nodes_dom (session (FolderTree 100 (JS_number 5)) empty_folder []) \<noteq> []
   \<and> list_all (\<lambda>e. listeners e = [])
        (nodes_dom (session (FolderTree 100 (JS_number 5)) empty_folder []))"
  using non_string_key_is_null [of "JS_number 5" 100 empty_folder "[]"]
  by (simp add: list_all_iff)

end
